theory Spec2Isabelle
  imports Main "HOL-Library.Multiset"
begin

section \<open>Data model\<close>

text \<open>
  JSON values, as the body parser hands them to the handlers in \<^verbatim>\<open>req.body\<close>.
  A string is a list of characters; its length stands for JavaScript's
  \<^verbatim>\<open>String.length\<close>, which is what Joi's \<^verbatim>\<open>min\<close> and
  \<^verbatim>\<open>max\<close> count. An object is the list of its keys with their values.
\<close>

datatype json =
    JNull
  | JBool bool
  | JNum int
  | JStr string
  | JArr "json list"
  | JObj "(string \<times> json) list"

text \<open>
  Modelled from the spec: the Mongoose model \<^verbatim>\<open>Todo\<close>
  (\<^verbatim>\<open>schemas/todo.schema.js\<close>) is imported by the router but is not among the
  sources. Sections 3 and 6 of the specification give the persisted record shape
  \<^verbatim>\<open>{ id, value, order, doneAt }\<close>: an opaque identifier assigned by the store, a
  text, an integer position and an optional instant. Identifiers (ObjectIds) and instants
  are natural numbers here. An \<open>order\<close> is a JavaScript Number that holds an integer:
  the model keeps the integer, and does arithmetic on it the way JavaScript does
  (\<open>jsAdd1\<close> below).
\<close>

record todo =
  todo_id :: nat
  todo_value :: string
  todo_order :: int
  todo_doneAt :: "nat option"

text \<open>
  The collection: its documents in insertion (natural) order, and the next identifier the
  driver will generate. Identifiers are never reused.
\<close>

record store =
  docs :: "todo list"
  nextId :: nat

definition emptyStore :: store where
  "emptyStore = \<lparr>docs = [], nextId = 0\<rparr>"

subsection \<open>JavaScript arithmetic on Numbers that hold integers\<close>

text \<open>The number of binary digits of a positive integer.\<close>

function bitLength :: "int \<Rightarrow> nat" where
  "bitLength n = (if n \<le> 0 then 0 else Suc (bitLength (n div 2)))"
  by pat_completeness auto
termination
  by (relation "measure nat") auto

text \<open>
  The IEEE 754 double nearest to a non-negative integer: 53 significant binary digits,
  ties to the even significand. Below \<open>2 ^ 53\<close> every integer is a double. (The doubles
  end near \<open>2 ^ 1024\<close>; adding 1 to a double never leaves them.)
\<close>

definition roundMagnitude :: "int \<Rightarrow> int" where
  "roundMagnitude n =
     (if n < 2 ^ 53 then n
      else
        let q = 2 ^ (bitLength n - 53);
            m = n div q;
            r = n mod q
        in if 2 * r < q then m * q
           else if q < 2 * r then (m + 1) * q
           else if even m then m * q
           else (m + 1) * q)"

text \<open>The double nearest to an integer: the sign is kept, the magnitude is rounded.\<close>

definition roundToDouble :: "int \<Rightarrow> int" where
  "roundToDouble k = (if k < 0 then - roundMagnitude (- k) else roundMagnitude k)"

text \<open>\<^verbatim>\<open>x + 1\<close> on a Number that holds the integer \<open>k\<close>.\<close>

definition jsAdd1 :: "int \<Rightarrow> int" where
  "jsAdd1 k = roundToDouble (k + 1)"

subsection \<open>The queries and writes of the model that the router uses\<close>

text \<open>
  The path parameter \<^verbatim>\<open>:todoId\<close> is a raw string of the URL. Mongoose casts it to an
  ObjectId before it queries; the model keeps what that cast makes of the string: the
  ObjectId it denotes, or the fact that it denotes none (as \<^verbatim>\<open>abc\<close> does).
\<close>

datatype path_id = Malformed | ObjectId nat

text \<open>The document with a given ObjectId.\<close>

definition lookupById :: "store \<Rightarrow> nat \<Rightarrow> todo option" where
  "lookupById s i = find (\<lambda>t. todo_id t = i) (docs s)"

text \<open>What makes a promise of a handler reject.\<close>

datatype rejection = CastError

text \<open>\<^verbatim>\<open>Todo.findById(todoId).exec()\<close>: rejects with a cast error when the string is
  no ObjectId, and resolves to the document or to \<^verbatim>\<open>null\<close> otherwise.\<close>

fun findById :: "store \<Rightarrow> path_id \<Rightarrow> rejection + todo option" where
  "findById s Malformed = Inl CastError"
| "findById s (ObjectId i) = Inr (lookupById s i)"

text \<open>\<^verbatim>\<open>Todo.findOne({ order }).exec()\<close>: the first document holding that order.\<close>

definition findOneByOrder :: "store \<Rightarrow> int \<Rightarrow> todo option" where
  "findOneByOrder s k = find (\<lambda>t. todo_order t = k) (docs s)"

text \<open>\<^verbatim>\<open>.sort('-order')\<close>: descending by order.\<close>

definition sortDescOrder :: "todo list \<Rightarrow> todo list" where
  "sortDescOrder ds = sort_key (\<lambda>t. - todo_order t) ds"

text \<open>\<^verbatim>\<open>Todo.find().sort('-order').exec()\<close>\<close>

definition findSortDesc :: "store \<Rightarrow> todo list" where
  "findSortDesc s = sortDescOrder (docs s)"

text \<open>\<^verbatim>\<open>Todo.findOne().sort('-order').exec()\<close>: the first document of the descending
  sort, \<^verbatim>\<open>null\<close> on an empty collection.\<close>

definition findOneSortDesc :: "store \<Rightarrow> todo option" where
  "findOneSortDesc s = (case sortDescOrder (docs s) of [] \<Rightarrow> None | t # _ \<Rightarrow> Some t)"

text \<open>\<^verbatim>\<open>doc.save()\<close> on a document that was read from the collection: the stored
  document with that identifier takes the fields of the in-memory one. (Mongoose writes
  the modified fields only; the handlers read a document and save it within one request,
  and nothing else writes that document in between, so this is the same.)\<close>

definition saveDoc :: "todo \<Rightarrow> store \<Rightarrow> store" where
  "saveDoc d s = s\<lparr>docs := map (\<lambda>t. if todo_id t = todo_id d then d else t) (docs s)\<rparr>"

text \<open>\<^verbatim>\<open>new Todo({ value, order })\<close> followed by \<^verbatim>\<open>todo.save()\<close>: a fresh
  identifier, \<open>doneAt\<close> absent, appended to the collection.\<close>

definition saveNew :: "string \<Rightarrow> int \<Rightarrow> store \<Rightarrow> todo \<times> store" where
  "saveNew v k s =
     (let todo = \<lparr>todo_id = nextId s, todo_value = v, todo_order = k, todo_doneAt = None\<rparr>
      in (todo, s\<lparr>docs := docs s @ [todo], nextId := Suc (nextId s)\<rparr>))"

text \<open>\<^verbatim>\<open>Todo.deleteOne({ _id: todoId })\<close>: removes the first matching document.\<close>

fun delFirst :: "nat \<Rightarrow> todo list \<Rightarrow> todo list" where
  "delFirst i [] = []"
| "delFirst i (t # ts) = (if todo_id t = i then ts else t # delFirst i ts)"

definition deleteOne :: "nat \<Rightarrow> store \<Rightarrow> store" where
  "deleteOne i s = s\<lparr>docs := delFirst i (docs s)\<rparr>"

section \<open>Responses and errors\<close>

text \<open>The three error messages of the router (Korean texts in the source), by name.\<close>

datatype message = ValueMissing | TodoNotFound | TodoInfoNotFound

datatype body =
    TodoBody todo
  | TodosBody "todo list"
  | EmptyBody
  | ErrorBody message

datatype error = ValidationError

text \<open>
  A handler answers with a status and a JSON body, or hands an error to
  \<^verbatim>\<open>next\<close> (only the POST handler has a \<^verbatim>\<open>try\<close>/\<^verbatim>\<open>catch\<close> that does), or
  its promise rejects with nothing to catch it, and no response is sent.
\<close>

datatype outcome = Response nat body | Next error | Unhandled rejection

text \<open>
  Modelled from the spec: the error-handling middleware that receives
  \<^verbatim>\<open>next(error)\<close> is not among the sources. Sections 6 and 7 of the specification
  say that a validation error is surfaced with status 400.
\<close>

fun errorStatus :: "error \<Rightarrow> nat" where
  "errorStatus ValidationError = 400"

text \<open>The status that the client receives, if it receives a response.\<close>

fun statusOf :: "outcome \<Rightarrow> nat option" where
  "statusOf (Response c _) = Some c"
| "statusOf (Next e) = Some (errorStatus e)"
| "statusOf (Unhandled _) = None"

section \<open>The router\<close>

text \<open>JavaScript truthiness of a string and of a number.\<close>

definition truthy_str :: "string \<Rightarrow> bool" where
  "truthy_str v = (v \<noteq> [])"

definition truthy_num :: "int \<Rightarrow> bool" where
  "truthy_num k = (k \<noteq> 0)"

text \<open>
  \<^verbatim>\<open>joi.object({ value: joi.string().min(1).max(50).required() })\<close> applied to
  \<^verbatim>\<open>req.body\<close>. The body must be an object; a key that the schema does not name
  is refused; \<open>value\<close> is required; a Joi string accepts strings only, and the bounds
  are on its length.
\<close>

fun createdTodoSchema :: "json \<Rightarrow> error + string" where
  "createdTodoSchema (JObj kvs) =
     (if list_all (\<lambda>kv. fst kv = ''value'') kvs then
        (case map_of kvs ''value'' of
           Some (JStr v) \<Rightarrow>
             if 1 \<le> length v \<and> length v \<le> 50 then Inr v else Inl ValidationError
         | _ \<Rightarrow> Inl ValidationError)
      else Inl ValidationError)"
| "createdTodoSchema _ = Inl ValidationError"

text \<open>\<^verbatim>\<open>router.post('/todos')\<close>\<close>

definition post_todos :: "json \<Rightarrow> store \<Rightarrow> outcome \<times> store" where
  "post_todos reqBody s =
     (case createdTodoSchema reqBody of
        Inl e \<Rightarrow> (Next e, s)
      | Inr v \<Rightarrow>
          if \<not> truthy_str v then (Response 400 (ErrorBody ValueMissing), s)
          else
            let k = (case findOneSortDesc s of
                       Some todoMaxOrder \<Rightarrow> jsAdd1 (todo_order todoMaxOrder)
                     | None \<Rightarrow> 1);
                (todo, s') = saveNew v k s
            in (Response 201 (TodoBody todo), s'))"

text \<open>\<^verbatim>\<open>router.get('/todos')\<close>\<close>

definition get_todos :: "store \<Rightarrow> outcome \<times> store" where
  "get_todos s = (Response 200 (TodosBody (findSortDesc s)), s)"

text \<open>
  The body of a PATCH request, with the field types of the specification's interface
  (\<open>order\<close> an integer, \<open>done\<close> a boolean, \<open>value\<close> a text); \<open>None\<close> is a
  field that the request omits (\<^verbatim>\<open>undefined\<close> after destructuring). The order is
  the Number that the body parser made of the JSON literal.
\<close>

record patch_body =
  req_order :: "int option"
  req_done :: "bool option"
  req_value :: "string option"

text \<open>\<^verbatim>\<open>if (order) { ... }\<close>: the in-memory target with its new order, and the
  collection after the holder of that order, if any, was saved with the target's order.\<close>

definition changeOrder :: "int option \<Rightarrow> todo \<Rightarrow> store \<Rightarrow> todo \<times> store" where
  "changeOrder order currentTodo s =
     (case order of
        None \<Rightarrow> (currentTodo, s)
      | Some k \<Rightarrow>
          if truthy_num k then
            (currentTodo\<lparr>todo_order := k\<rparr>,
             (case findOneByOrder s k of
                Some targetTodo \<Rightarrow> saveDoc (targetTodo\<lparr>todo_order := todo_order currentTodo\<rparr>) s
              | None \<Rightarrow> s))
          else (currentTodo, s))"

text \<open>\<^verbatim>\<open>if (done !== undefined) { currentTodo.doneAt = done ? new Date() : null; }\<close>\<close>

definition changeDone :: "bool option \<Rightarrow> nat \<Rightarrow> todo \<Rightarrow> todo" where
  "changeDone done now currentTodo =
     (case done of
        None \<Rightarrow> currentTodo
      | Some d \<Rightarrow> currentTodo\<lparr>todo_doneAt := (if d then Some now else None)\<rparr>)"

text \<open>\<^verbatim>\<open>if (value) { currentTodo.value = value; }\<close>\<close>

definition changeValue :: "string option \<Rightarrow> todo \<Rightarrow> todo" where
  "changeValue val currentTodo =
     (case val of
        None \<Rightarrow> currentTodo
      | Some v \<Rightarrow> if truthy_str v then currentTodo\<lparr>todo_value := v\<rparr> else currentTodo)"

text \<open>\<^verbatim>\<open>router.patch('/todos/:todoId')\<close>; \<open>now\<close> is what \<^verbatim>\<open>new Date()\<close>
  returns during the request. The handler has no \<^verbatim>\<open>try\<close>/\<^verbatim>\<open>catch\<close>.\<close>

definition patch_todos :: "path_id \<Rightarrow> patch_body \<Rightarrow> nat \<Rightarrow> store \<Rightarrow> outcome \<times> store" where
  "patch_todos todoId b now s =
     (case findById s todoId of
        Inl e \<Rightarrow> (Unhandled e, s)
      | Inr None \<Rightarrow> (Response 404 (ErrorBody TodoNotFound), s)
      | Inr (Some currentTodo) \<Rightarrow>
          let (cur, s1) = changeOrder (req_order b) currentTodo s;
              cur' = changeValue (req_value b) (changeDone (req_done b) now cur)
          in (Response 200 EmptyBody, saveDoc cur' s1))"

text \<open>\<^verbatim>\<open>router.delete('/todos/:todoId')\<close>, without a \<^verbatim>\<open>try\<close>/\<^verbatim>\<open>catch\<close>
  as well. The identifier is cast a second time for \<^verbatim>\<open>deleteOne\<close>; it is the
  ObjectId that was found.\<close>

definition delete_todos :: "path_id \<Rightarrow> store \<Rightarrow> outcome \<times> store" where
  "delete_todos todoId s =
     (case findById s todoId of
        Inl e \<Rightarrow> (Unhandled e, s)
      | Inr None \<Rightarrow> (Response 404 (ErrorBody TodoInfoNotFound), s)
      | Inr (Some todo) \<Rightarrow> (Response 200 EmptyBody, deleteOne (todo_id todo) s))"

section \<open>Sequences of requests\<close>

datatype op =
    Create json
  | Update path_id patch_body nat
  | Delete path_id

fun perform :: "op \<Rightarrow> store \<Rightarrow> outcome \<times> store" where
  "perform (Create b) s = post_todos b s"
| "perform (Update i b now) s = patch_todos i b now s"
| "perform (Delete i) s = delete_todos i s"

fun run :: "op list \<Rightarrow> store \<Rightarrow> store" where
  "run [] s = s"
| "run (x # xs) s = run xs (snd (perform x s))"

fun outcomes :: "op list \<Rightarrow> store \<Rightarrow> outcome list" where
  "outcomes [] s = []"
| "outcomes (x # xs) s = fst (perform x s) # outcomes xs (snd (perform x s))"

text \<open>The order that a response to a Create carries, if it carries a to-do.\<close>

fun assignedOrder :: "outcome \<Rightarrow> int option" where
  "assignedOrder (Response _ (TodoBody t)) = Some (todo_order t)"
| "assignedOrder _ = None"

text \<open>The invariants of the collection: identifiers are unique and were all generated
  already; order values are pairwise distinct.\<close>

definition uniqueIds :: "store \<Rightarrow> bool" where
  "uniqueIds s = (distinct (map todo_id (docs s)) \<and> list_all (\<lambda>t. todo_id t < nextId s) (docs s))"

definition distinctOrders :: "store \<Rightarrow> bool" where
  "distinctOrders s = distinct (map todo_order (docs s))"

section \<open>Auxiliary notions for the statements\<close>

text \<open>Exchanging two order values: \<open>x\<close> becomes \<open>y\<close>, \<open>y\<close> becomes \<open>x\<close>, every
  other value stays.\<close>

definition swapOrder :: "int \<Rightarrow> int \<Rightarrow> int \<Rightarrow> int" where
  "swapOrder x y k = (if k = x then y else if k = y then x else k)"

text \<open>The order that a PATCH request gives its target: the requested one when the guard
  \<^verbatim>\<open>if (order)\<close> lets it through, the current one otherwise.\<close>

definition effOrder :: "int option \<Rightarrow> int \<Rightarrow> int" where
  "effOrder r cur = (case r of None \<Rightarrow> cur | Some k \<Rightarrow> if truthy_num k then k else cur)"

text \<open>The order that Create assigns: 1 on an empty collection, otherwise what JavaScript
  makes of the greatest order plus 1.\<close>

definition nextOrder :: "store \<Rightarrow> int" where
  "nextOrder s = (if docs s = [] then 1 else jsAdd1 (Max (todo_order ` set (docs s))))"

text \<open>One more than the greatest order, or 1 on an empty collection: the order that the
  specification has Create assign.\<close>

definition exactNext :: "store \<Rightarrow> int" where
  "exactNext s = (if docs s = [] then 1 else Max (todo_order ` set (docs s)) + 1)"

definition storeInv :: "store \<Rightarrow> bool" where
  "storeInv s = (uniqueIds s \<and> distinctOrders s)"

text \<open>Every order of the collection lies between \<open>- l\<close> and \<open>u\<close>.\<close>

definition ordersWithin :: "int \<Rightarrow> int \<Rightarrow> store \<Rightarrow> bool" where
  "ordersWithin l u s = list_all (\<lambda>t. - l \<le> todo_order t \<and> todo_order t \<le> u) (docs s)"

text \<open>A request supplies no order of a magnitude above \<open>l\<close>.\<close>

fun suppliedOrderWithin :: "int \<Rightarrow> op \<Rightarrow> bool" where
  "suppliedOrderWithin l (Update i b now) =
     (case req_order b of None \<Rightarrow> True | Some k \<Rightarrow> - l \<le> k \<and> k \<le> l)"
| "suppliedOrderWithin l _ = True"

text \<open>An Update of the sequence supplies no value of more than 50 characters.\<close>

fun suppliedValueOk :: "op \<Rightarrow> bool" where
  "suppliedValueOk (Update i b now) = (case req_value b of None \<Rightarrow> True | Some v \<Rightarrow> length v \<le> 50)"
| "suppliedValueOk _ = True"

text \<open>The value field of a request body, if the body is an object that has one.\<close>

fun valueField :: "json \<Rightarrow> json option" where
  "valueField (JObj kvs) = map_of kvs ''value''"
| "valueField _ = None"

section \<open>Example data\<close>

text \<open>The store after \<open>Create("buy milk")\<close> and \<open>Create("walk dog")\<close>, the body of
  a Create with nothing but a value, and PATCH bodies with a single field.\<close>

definition todoA :: todo where
  "todoA = \<lparr>todo_id = 0, todo_value = ''buy milk'', todo_order = 1, todo_doneAt = None\<rparr>"

definition todoB :: todo where
  "todoB = \<lparr>todo_id = 1, todo_value = ''walk dog'', todo_order = 2, todo_doneAt = None\<rparr>"

definition storeAB :: store where
  "storeAB = \<lparr>docs = [todoA, todoB], nextId = 2\<rparr>"

definition valueBody :: "string \<Rightarrow> json" where
  "valueBody v = JObj [(''value'', JStr v)]"

definition orderOnly :: "int \<Rightarrow> patch_body" where
  "orderOnly k = \<lparr>req_order = Some k, req_done = None, req_value = None\<rparr>"

definition doneOnly :: "bool \<Rightarrow> patch_body" where
  "doneOnly d = \<lparr>req_order = None, req_done = Some d, req_value = None\<rparr>"

definition valueOnly :: "string \<Rightarrow> patch_body" where
  "valueOnly v = \<lparr>req_order = None, req_done = None, req_value = Some v\<rparr>"

section \<open>Basic facts about the store\<close>

lemma inj_swapOrder: "inj (swapOrder x y)"
  by (auto simp: inj_def swapOrder_def split: if_splits)

lemma distinct_swapOrder: "distinct (map (swapOrder x y) ks) = distinct ks"
  by (simp add: distinct_map inj_on_subset [OF inj_swapOrder])

lemma lookupById_Some: "lookupById s i = Some a \<Longrightarrow> a \<in> set (docs s) \<and> todo_id a = i"
  by (auto simp: lookupById_def find_Some_iff)

lemma lookupById_None: "lookupById s i = None \<longleftrightarrow> i \<notin> todo_id ` set (docs s)"
  by (auto simp: lookupById_def find_None_iff)

lemma findOneByOrder_Some: "findOneByOrder s k = Some b \<Longrightarrow> b \<in> set (docs s) \<and> todo_order b = k"
  by (auto simp: findOneByOrder_def find_Some_iff)

lemma findOneByOrder_None: "findOneByOrder s k = None \<Longrightarrow> k \<notin> todo_order ` set (docs s)"
  by (auto simp: findOneByOrder_def find_None_iff)

lemma same_key_same_doc:
  "distinct (map f ds) \<Longrightarrow> t \<in> set ds \<Longrightarrow> u \<in> set ds \<Longrightarrow> f t = f u \<Longrightarrow> t = u"
  by (auto simp: distinct_map inj_on_def)

lemma find_replaced:
  "find (\<lambda>t. todo_id t = j) (map (\<lambda>t. if todo_id t = todo_id d then d else t) ds) =
     (if j = todo_id d then (if j \<in> todo_id ` set ds then Some d else None)
      else find (\<lambda>t. todo_id t = j) ds)"
  by (induction ds) auto

lemma lookupById_saveDoc:
  "lookupById (saveDoc d s) j =
     (if j = todo_id d then (if lookupById s j = None then None else Some d) else lookupById s j)"
  by (auto simp: saveDoc_def lookupById_def find_replaced find_None_iff image_iff)

lemma ids_saveDoc [simp]: "map todo_id (docs (saveDoc d s)) = map todo_id (docs s)"
  by (simp add: saveDoc_def)

lemma nextId_saveDoc [simp]: "nextId (saveDoc d s) = nextId s"
  by (simp add: saveDoc_def)

lemma id_changeValue [simp]: "todo_id (changeValue v t) = todo_id t"
  by (simp add: changeValue_def split: option.splits)
lemma id_changeDone [simp]: "todo_id (changeDone d now t) = todo_id t"
  by (simp add: changeDone_def split: option.splits)
lemma order_changeValue [simp]: "todo_order (changeValue v t) = todo_order t"
  by (simp add: changeValue_def split: option.splits)
lemma order_changeDone [simp]: "todo_order (changeDone d now t) = todo_order t"
  by (simp add: changeDone_def split: option.splits)


lemma changeOrder_fst: "todo_order (fst (changeOrder r a s)) = effOrder r (todo_order a)"
  "todo_id (fst (changeOrder r a s)) = todo_id a"
  by (auto simp: changeOrder_def effOrder_def split: option.splits)

lemma changeOrder_ids [simp]: "map todo_id (docs (snd (changeOrder r a s))) = map todo_id (docs s)"
  by (auto simp: changeOrder_def split: option.splits)

subsection \<open>The handlers on an ObjectId and on a malformed identifier\<close>

lemma patch_todos_ObjectId:
  "patch_todos (ObjectId i) b now s =
     (case lookupById s i of
        None \<Rightarrow> (Response 404 (ErrorBody TodoNotFound), s)
      | Some currentTodo \<Rightarrow>
          let (cur, s1) = changeOrder (req_order b) currentTodo s;
              cur' = changeValue (req_value b) (changeDone (req_done b) now cur)
          in (Response 200 EmptyBody, saveDoc cur' s1))"
  by (simp add: patch_todos_def split: option.splits)

lemma delete_todos_ObjectId:
  "delete_todos (ObjectId i) s =
     (case lookupById s i of
        None \<Rightarrow> (Response 404 (ErrorBody TodoInfoNotFound), s)
      | Some todo \<Rightarrow> (Response 200 EmptyBody, deleteOne i s))"
  by (auto simp: delete_todos_def split: option.splits dest: lookupById_Some)

lemma patch_todos_Malformed: "patch_todos Malformed b now s = (Unhandled CastError, s)"
  by (simp add: patch_todos_def)

lemma delete_todos_Malformed: "delete_todos Malformed s = (Unhandled CastError, s)"
  by (simp add: delete_todos_def)

lemma patch_ids:
  "map todo_id (docs (snd (patch_todos (ObjectId i) b now s))) = map todo_id (docs s)"
  by (auto simp: patch_todos_ObjectId split: option.splits prod.splits)
     (metis changeOrder_ids snd_conv)


lemma docs_patch:
  assumes "lookupById s i = Some a"
  shows "docs (snd (patch_todos (ObjectId i) b now s)) =
         map (\<lambda>t. if todo_id t = todo_id a
                  then changeValue (req_value b) (changeDone (req_done b) now (fst (changeOrder (req_order b) a s)))
                  else t)
             (docs (snd (changeOrder (req_order b) a s)))"
proof (cases "changeOrder (req_order b) a s")
  case (Pair cur s1)
  then have "todo_id cur = todo_id a"
    using changeOrder_fst(2) [of "req_order b" a s] by simp
  then show ?thesis
    using assms Pair by (simp add: patch_todos_ObjectId saveDoc_def)
qed

lemma docs_changeOrder_skip:
  assumes "\<not> (\<exists>k. r = Some k \<and> truthy_num k)"
  shows "changeOrder r a s = (a, s)"
  using assms by (auto simp: changeOrder_def split: option.splits)

lemma docs_changeOrder_none:
  assumes "truthy_num k" "findOneByOrder s k = None"
  shows "changeOrder (Some k) a s = (a\<lparr>todo_order := k\<rparr>, s)"
  using assms by (simp add: changeOrder_def)

lemma docs_changeOrder_some:
  assumes "truthy_num k" "findOneByOrder s k = Some c"
  shows "changeOrder (Some k) a s = (a\<lparr>todo_order := k\<rparr>, saveDoc (c\<lparr>todo_order := todo_order a\<rparr>) s)"
  using assms by (simp add: changeOrder_def)

lemma patch_orders:
  assumes u: "distinct (map todo_id (docs s))" and d: "distinct (map todo_order (docs s))"
    and a: "lookupById s i = Some a"
  shows "map todo_order (docs (snd (patch_todos (ObjectId i) b now s))) =
         map (swapOrder (todo_order a) (effOrder (req_order b) (todo_order a))) (map todo_order (docs s))"
proof -
  from a have am: "a \<in> set (docs s)" and ai: "todo_id a = i" by (auto dest: lookupById_Some)
  have byid: "\<And>t v. t \<in> set (docs s) \<Longrightarrow> v \<in> set (docs s) \<Longrightarrow> todo_id t = todo_id v \<Longrightarrow> t = v"
    using same_key_same_doc [OF u] by blast
  have byord: "\<And>t v. t \<in> set (docs s) \<Longrightarrow> v \<in> set (docs s) \<Longrightarrow> todo_order t = todo_order v \<Longrightarrow> t = v"
    using same_key_same_doc [OF d] by blast
  show ?thesis
  proof (cases "\<exists>k. req_order b = Some k \<and> truthy_num k")
    case False
    then have co: "changeOrder (req_order b) a s = (a, s)" by (rule docs_changeOrder_skip)
    from False have eo: "effOrder (req_order b) (todo_order a) = todo_order a"
      by (auto simp: effOrder_def split: option.splits)
    have "\<And>t. t \<in> set (docs s) \<Longrightarrow> todo_id t = todo_id a \<Longrightarrow> todo_order t = todo_order a"
      using byid am by blast
    then show ?thesis
      by (simp add: docs_patch [OF a] co eo swapOrder_def)
  next
    case True
    then obtain k where k: "req_order b = Some k" "truthy_num k" by blast
    then have eo: "effOrder (Some k) (todo_order a) = k" by (simp add: effOrder_def)
    show ?thesis
    proof (cases "findOneByOrder s k")
      case None
      then have nk: "\<And>t. t \<in> set (docs s) \<Longrightarrow> todo_order t \<noteq> k"
        using findOneByOrder_None by blast
      have "\<And>t. t \<in> set (docs s) \<Longrightarrow>
              (if todo_id t = todo_id a then k else todo_order t) = swapOrder (todo_order a) k (todo_order t)"
        using byid byord am nk by (auto simp: swapOrder_def)
      then show ?thesis
        by (simp add: docs_patch [OF a] k docs_changeOrder_none [OF k(2) None] eo if_distrib [of todo_order] cong: if_cong)
    next
      case (Some c)
      then have c: "c \<in> set (docs s)" "todo_order c = k" by (auto dest: findOneByOrder_Some)
      define h1 where "h1 = (\<lambda>t. if todo_id t = todo_id c then c\<lparr>todo_order := todo_order a\<rparr> else t)"
      define h2 where "h2 = (\<lambda>t. if todo_id t = todo_id a
                  then changeValue (req_value b) (changeDone (req_done b) now (a\<lparr>todo_order := k\<rparr>))
                  else t)"
      have el: "todo_order (h2 (h1 t)) = swapOrder (todo_order a) k (todo_order t)"
        if t: "t \<in> set (docs s)" for t
      proof -
        consider "t = a" | "t \<noteq> a" "t = c" | "t \<noteq> a" "t \<noteq> c" by blast
        then show ?thesis
        proof cases
          case 1
          then show ?thesis by (simp add: swapOrder_def h1_def h2_def)
        next
          case 2
          then have "todo_id c \<noteq> todo_id a" using byid [OF c(1) am] by blast
          moreover have "k \<noteq> todo_order a" using byord [OF c(1) am] c(2) 2 by blast
          ultimately show ?thesis using 2 c(2) by (simp add: swapOrder_def h1_def h2_def)
        next
          case 3
          then have "todo_id t \<noteq> todo_id a" "todo_id t \<noteq> todo_id c"
            using byid [OF t am] byid [OF t c(1)] by blast+
          moreover have "todo_order t \<noteq> todo_order a" "todo_order t \<noteq> k"
            using byord [OF t am] byord [OF t c(1)] c(2) 3 by auto
          ultimately show ?thesis by (simp add: swapOrder_def h1_def h2_def)
        qed
      qed
      have "docs (snd (patch_todos (ObjectId i) b now s)) = map h2 (map h1 (docs s))"
        by (simp add: docs_patch [OF a] k docs_changeOrder_some [OF k(2) Some] saveDoc_def h1_def h2_def)
      then show ?thesis
        by (simp add: k eo el)
    qed
  qed
qed


subsection \<open>Facts about Create\<close>

lemma sortDescOrder_set [simp]: "set (sortDescOrder ds) = set ds"
  by (simp add: sortDescOrder_def)

lemma sortDescOrder_mset [simp]: "mset (sortDescOrder ds) = mset ds"
  by (simp add: sortDescOrder_def)

lemma sortDescOrder_sorted: "sorted_wrt (\<lambda>t u. todo_order u \<le> todo_order t) (sortDescOrder ds)"
proof -
  have "sorted (map (\<lambda>t. - todo_order t) (sortDescOrder ds))"
    by (simp add: sortDescOrder_def)
  then show ?thesis by (simp add: sorted_wrt_map)
qed

lemma findOneSortDesc_None: "findOneSortDesc s = None \<longleftrightarrow> docs s = []"
proof -
  have "sortDescOrder (docs s) = [] \<longleftrightarrow> docs s = []"
    using sortDescOrder_set [of "docs s"] by (metis set_empty)
  then show ?thesis by (cases "sortDescOrder (docs s)") (simp_all add: findOneSortDesc_def)
qed

lemma findOneSortDesc_Some:
  assumes "findOneSortDesc s = Some m"
  shows "m \<in> set (docs s)" and "\<And>t. t \<in> set (docs s) \<Longrightarrow> todo_order t \<le> todo_order m"
proof -
  from assms obtain rest where r: "sortDescOrder (docs s) = m # rest"
    by (auto simp: findOneSortDesc_def split: list.splits)
  have st: "set (docs s) = set (m # rest)" using sortDescOrder_set [of "docs s"] r by simp
  then show "m \<in> set (docs s)" by simp
  have "sorted_wrt (\<lambda>t u. todo_order u \<le> todo_order t) (m # rest)"
    using sortDescOrder_sorted [of "docs s"] r by simp
  then have "\<And>t. t \<in> set rest \<Longrightarrow> todo_order t \<le> todo_order m" by simp
  then show "\<And>t. t \<in> set (docs s) \<Longrightarrow> todo_order t \<le> todo_order m" using st by auto
qed

lemma findOneSortDesc_Max:
  assumes "findOneSortDesc s = Some m"
  shows "todo_order m = Max (todo_order ` set (docs s))"
proof -
  have "Max (todo_order ` set (docs s)) = todo_order m"
    using findOneSortDesc_Some [OF assms] by (intro Max_eqI) auto
  then show ?thesis by simp
qed


lemma createdTodoSchema_Inr:
  "createdTodoSchema b = Inr x \<longleftrightarrow>
     (\<exists>kvs. b = JObj kvs \<and> list_all (\<lambda>kv. fst kv = ''value'') kvs
        \<and> map_of kvs ''value'' = Some (JStr x) \<and> 1 \<le> length x \<and> length x \<le> 50)"
  by (cases b rule: createdTodoSchema.cases) (auto split: option.splits json.splits)

lemma createdTodoSchema_bounds:
  "createdTodoSchema b = Inr x \<Longrightarrow> 1 \<le> length x \<and> length x \<le> 50"
  by (auto simp: createdTodoSchema_Inr)

lemma error_is_ValidationError: "(e::error) = ValidationError"
  by (cases e) simp

lemma createdTodoSchema_Inl: "createdTodoSchema b = Inl e \<longleftrightarrow> (\<forall>x. createdTodoSchema b \<noteq> Inr x)"
proof (cases "createdTodoSchema b")
  case (Inl a)
  have "a = e" using error_is_ValidationError [of a] error_is_ValidationError [of e] by simp
  then show ?thesis using Inl by simp
next
  case (Inr x)
  then show ?thesis by simp
qed

lemma createdTodoSchema_valueBody:
  "1 \<le> length x \<Longrightarrow> length x \<le> 50 \<Longrightarrow> createdTodoSchema (valueBody x) = Inr x"
  by (simp add: valueBody_def)

lemma createdTodoSchema_bad_value:
  assumes "valueField b = None \<or> (\<exists>j. valueField b = Some j \<and> (\<forall>x. j \<noteq> JStr x))
      \<or> (\<exists>x. valueField b = Some (JStr x) \<and> (length x = 0 \<or> 50 < length x))"
  shows "createdTodoSchema b = Inl ValidationError"
  using assms by (subst createdTodoSchema_Inl) (auto simp: createdTodoSchema_Inr)

lemma createdTodoSchema_unknown_key:
  assumes "\<not> list_all (\<lambda>kv. fst kv = ''value'') kvs"
  shows "createdTodoSchema (JObj kvs) = Inl ValidationError"
  using assms by simp

lemma post_todos_valid:
  assumes "createdTodoSchema v = Inr x"
  shows "post_todos v s =
     (Response 201 (TodoBody \<lparr>todo_id = nextId s, todo_value = x, todo_order = nextOrder s, todo_doneAt = None\<rparr>),
      s\<lparr>docs := docs s @ [\<lparr>todo_id = nextId s, todo_value = x, todo_order = nextOrder s, todo_doneAt = None\<rparr>],
        nextId := Suc (nextId s)\<rparr>)"
proof -
  from assms have x: "truthy_str x" by (auto simp: createdTodoSchema_Inr truthy_str_def)
  have "(case findOneSortDesc s of Some m \<Rightarrow> jsAdd1 (todo_order m) | None \<Rightarrow> 1) = nextOrder s"
  proof (cases "findOneSortDesc s")
    case None
    then have "docs s = []" by (simp add: findOneSortDesc_None)
    then show ?thesis using None by (simp add: nextOrder_def)
  next
    case (Some m)
    then have "docs s \<noteq> []" using findOneSortDesc_None [of s] by auto
    then show ?thesis using Some by (simp add: nextOrder_def findOneSortDesc_Max [OF Some])
  qed
  then show ?thesis using assms x by (simp add: post_todos_def saveNew_def Let_def)
qed

lemma post_todos_invalid:
  assumes "createdTodoSchema v = Inl e"
  shows "post_todos v s = (Next e, s)"
  using assms by (simp add: post_todos_def)

subsection \<open>Adding 1 is exact below \<open>2 ^ 53\<close>\<close>

lemma jsAdd1_exact:
  assumes "- (2 ^ 53) < k + 1" and "k + 1 < 2 ^ 53"
  shows "jsAdd1 k = k + 1"
  using assms by (simp add: jsAdd1_def roundToDouble_def roundMagnitude_def)

lemma Max_order_within:
  assumes "ordersWithin l u s" and "docs s \<noteq> []"
  shows "- l \<le> Max (todo_order ` set (docs s))" and "Max (todo_order ` set (docs s)) \<le> u"
proof -
  have m: "Max (todo_order ` set (docs s)) \<in> todo_order ` set (docs s)"
    using assms(2) by (intro Max_in) auto
  then obtain t where "t \<in> set (docs s)" "Max (todo_order ` set (docs s)) = todo_order t" by auto
  then show "- l \<le> Max (todo_order ` set (docs s))" and "Max (todo_order ` set (docs s)) \<le> u"
    using assms(1) by (auto simp: ordersWithin_def list_all_iff)
qed

lemma nextOrder_exact:
  assumes "ordersWithin l u s" and "l \<le> 2 ^ 53" and "u + 1 < 2 ^ 53"
  shows "nextOrder s = exactNext s"
proof (cases "docs s = []")
  case True
  then show ?thesis by (simp add: nextOrder_def exactNext_def)
next
  case False
  have "jsAdd1 (Max (todo_order ` set (docs s))) = Max (todo_order ` set (docs s)) + 1"
    using Max_order_within [OF assms(1) False] assms(2,3) by (intro jsAdd1_exact) auto
  then show ?thesis using False by (simp add: nextOrder_def exactNext_def)
qed

lemma exactNext_fresh: "t \<in> set (docs s) \<Longrightarrow> todo_order t < exactNext s"
proof -
  assume t: "t \<in> set (docs s)"
  then have "todo_order t \<le> Max (todo_order ` set (docs s))" by simp
  moreover from t have "docs s \<noteq> []" by auto
  ultimately show ?thesis by (simp add: exactNext_def)
qed

lemma exactNext_within:
  assumes "ordersWithin l u s" and "0 \<le> l" and "0 \<le> u"
  shows "- l \<le> exactNext s" and "exactNext s \<le> u + 1"
proof -
  show "- l \<le> exactNext s"
    using Max_order_within(1) [OF assms(1)] assms(2) by (auto simp: exactNext_def)
  show "exactNext s \<le> u + 1"
    using Max_order_within(2) [OF assms(1)] assms(3) by (auto simp: exactNext_def)
qed

subsection \<open>Facts about Delete\<close>

lemma delFirst_subset: "set (delFirst i ds) \<subseteq> set ds"
  by (induction ds) auto

lemma delFirst_distinct: "distinct (map f ds) \<Longrightarrow> distinct (map f (delFirst i ds))"
proof (induction ds)
  case Nil
  then show ?case by simp
next
  case (Cons t ts)
  have "f t \<notin> f ` set (delFirst i ts)" using Cons.prems delFirst_subset [of i ts] by auto
  then show ?case using Cons by simp
qed

subsection \<open>What every request keeps\<close>

lemma storeInv_empty: "storeInv emptyStore"
  by (simp add: storeInv_def uniqueIds_def distinctOrders_def emptyStore_def)

lemma uniqueIds_post: assumes "uniqueIds s" shows "uniqueIds (snd (post_todos v s))"
proof (cases "createdTodoSchema v")
  case (Inl e)
  then show ?thesis using assms by (simp add: post_todos_invalid)
next
  case (Inr x)
  have "nextId s \<notin> todo_id ` set (docs s)"
    using assms by (auto simp: uniqueIds_def list_all_iff)
  then show ?thesis using assms
    by (auto simp: post_todos_valid [OF Inr] uniqueIds_def list_all_iff less_Suc_eq)
qed

lemma nextId_patch [simp]: "nextId (snd (patch_todos (ObjectId i) b now s)) = nextId s"
  by (auto simp: patch_todos_ObjectId changeOrder_def split: option.splits prod.splits)

lemma uniqueIds_patch_ObjectId:
  assumes "uniqueIds s" shows "uniqueIds (snd (patch_todos (ObjectId i) b now s))"
proof -
  have "set (map todo_id (docs (snd (patch_todos (ObjectId i) b now s)))) = set (map todo_id (docs s))"
    by (simp only: patch_ids)
  then have im: "todo_id ` set (docs (snd (patch_todos (ObjectId i) b now s))) = todo_id ` set (docs s)"
    by simp
  have "\<forall>j\<in>todo_id ` set (docs s). j < nextId s"
    using assms by (simp add: uniqueIds_def list_all_iff)
  then have "\<forall>j\<in>todo_id ` set (docs (snd (patch_todos (ObjectId i) b now s))). j < nextId s"
    by (simp only: im)
  then have "\<forall>t\<in>set (docs (snd (patch_todos (ObjectId i) b now s))). todo_id t < nextId s"
    by simp
  then show ?thesis using assms
    by (simp add: uniqueIds_def patch_ids list_all_iff)
qed

lemma uniqueIds_patch: assumes "uniqueIds s" shows "uniqueIds (snd (patch_todos p b now s))"
  using assms by (cases p) (simp_all add: patch_todos_Malformed uniqueIds_patch_ObjectId)

lemma distinctOrders_patch:
  assumes "uniqueIds s" and "distinctOrders s"
  shows "distinctOrders (snd (patch_todos p b now s))"
proof (cases p)
  case Malformed
  then show ?thesis using assms(2) by (simp add: patch_todos_Malformed)
next
  case (ObjectId i)
  show ?thesis
  proof (cases "lookupById s i")
    case None
    then show ?thesis using assms(2) ObjectId by (simp add: patch_todos_ObjectId)
  next
    case (Some a)
    have u: "distinct (map todo_id (docs s))" and d: "distinct (map todo_order (docs s))"
      using assms by (simp_all add: uniqueIds_def distinctOrders_def)
    show ?thesis
      unfolding ObjectId distinctOrders_def patch_orders [OF u d Some] distinct_swapOrder by (rule d)
  qed
qed

lemma docs_delete_subset: "set (docs (snd (delete_todos p s))) \<subseteq> set (docs s)"
proof (cases p)
  case Malformed
  then show ?thesis by (simp add: delete_todos_Malformed)
next
  case (ObjectId i)
  then show ?thesis using delFirst_subset [of i "docs s"]
    by (auto simp: delete_todos_ObjectId deleteOne_def split: option.splits)
qed

lemma storeInv_delete: assumes "storeInv s" shows "storeInv (snd (delete_todos p s))"
proof (cases p)
  case Malformed
  then show ?thesis using assms by (simp add: delete_todos_Malformed)
next
  case (ObjectId i)
  have "set (delFirst i (docs s)) \<subseteq> set (docs s)" by (rule delFirst_subset)
  then show ?thesis using assms ObjectId
    by (auto simp: delete_todos_ObjectId deleteOne_def storeInv_def uniqueIds_def distinctOrders_def
        delFirst_distinct list_all_iff split: option.splits)
qed

lemma uniqueIds_delete: assumes "uniqueIds s" shows "uniqueIds (snd (delete_todos p s))"
proof (cases p)
  case Malformed
  then show ?thesis using assms by (simp add: delete_todos_Malformed)
next
  case (ObjectId i)
  have "set (delFirst i (docs s)) \<subseteq> set (docs s)" by (rule delFirst_subset)
  then show ?thesis using assms ObjectId
    by (auto simp: delete_todos_ObjectId deleteOne_def uniqueIds_def
        delFirst_distinct list_all_iff split: option.splits)
qed

lemma uniqueIds_perform: "uniqueIds s \<Longrightarrow> uniqueIds (snd (perform x s))"
  by (cases x) (simp_all add: uniqueIds_post uniqueIds_patch uniqueIds_delete)

lemma uniqueIds_run: "uniqueIds s \<Longrightarrow> uniqueIds (run xs s)"
  by (induction xs arbitrary: s) (simp_all add: uniqueIds_perform)

text \<open>Identifiers are unique in every store that requests reach from the empty one.\<close>

lemma uniqueIds_reachable: "uniqueIds (run ops emptyStore)"
  by (rule uniqueIds_run) (simp add: uniqueIds_def emptyStore_def)

subsection \<open>Orders stay distinct while they stay below \<open>2 ^ 53\<close>\<close>

lemma ordersWithin_mono: "ordersWithin l u s \<Longrightarrow> u \<le> u' \<Longrightarrow> ordersWithin l u' s"
  by (auto simp: ordersWithin_def list_all_iff)

lemma post_within:
  assumes "storeInv s" and "ordersWithin l u s" and "0 \<le> l" and "l \<le> u" and "u + 1 < 2 ^ 53"
  shows "storeInv (snd (post_todos v s)) \<and> ordersWithin l (u + 1) (snd (post_todos v s))"
proof (cases "createdTodoSchema v")
  case (Inl e)
  then show ?thesis using assms(1) ordersWithin_mono [OF assms(2), of "u + 1"]
    by (simp add: post_todos_invalid)
next
  case (Inr x)
  have l53: "l \<le> 2 ^ 53" using assms(4,5) by simp
  have n: "nextOrder s = exactNext s" by (rule nextOrder_exact [OF assms(2) l53 assms(5)])
  have fresh: "nextOrder s \<notin> todo_order ` set (docs s)"
    using exactNext_fresh [of _ s] n by force
  have b: "- l \<le> nextOrder s" "nextOrder s \<le> u + 1"
    using exactNext_within [OF assms(2,3)] assms(3,4) n by auto
  have "uniqueIds (snd (post_todos v s))" using assms(1) by (simp add: storeInv_def uniqueIds_post)
  moreover have "distinctOrders (snd (post_todos v s))"
    using assms(1) fresh by (simp add: post_todos_valid [OF Inr] storeInv_def distinctOrders_def)
  moreover have "ordersWithin l (u + 1) (snd (post_todos v s))"
    using ordersWithin_mono [OF assms(2), of "u + 1"] b
    by (simp add: post_todos_valid [OF Inr] ordersWithin_def)
  ultimately show ?thesis by (simp add: storeInv_def)
qed

lemma patch_within:
  assumes "storeInv s" and "ordersWithin l u s" and "suppliedOrderWithin l (Update p b now)"
    and "l \<le> u"
  shows "ordersWithin l u (snd (patch_todos p b now s))"
proof (cases p)
  case Malformed
  then show ?thesis using assms(2) by (simp add: patch_todos_Malformed)
next
  case (ObjectId i)
  show ?thesis
  proof (cases "lookupById s i")
    case None
    then show ?thesis using assms(2) ObjectId by (simp add: patch_todos_ObjectId)
  next
    case (Some a)
    have u: "distinct (map todo_id (docs s))" and d: "distinct (map todo_order (docs s))"
      using assms(1) by (simp_all add: storeInv_def uniqueIds_def distinctOrders_def)
    have am: "a \<in> set (docs s)" using Some by (auto dest: lookupById_Some)
    define e where "e = effOrder (req_order b) (todo_order a)"
    have a_in: "- l \<le> todo_order a \<and> todo_order a \<le> u"
      using assms(2) am by (auto simp: ordersWithin_def list_all_iff)
    have e_in: "- l \<le> e \<and> e \<le> u"
      using assms(3,4) a_in by (auto simp: e_def effOrder_def split: option.splits)
    have "\<forall>k\<in>set (map todo_order (docs (snd (patch_todos (ObjectId i) b now s)))). - l \<le> k \<and> k \<le> u"
      unfolding patch_orders [OF u d Some] e_def [symmetric]
      using assms(2) a_in e_in by (auto simp: swapOrder_def ordersWithin_def list_all_iff)
    then show ?thesis using ObjectId by (auto simp: ordersWithin_def list_all_iff)
  qed
qed

lemma perform_within:
  assumes "storeInv s" and "ordersWithin l u s" and "suppliedOrderWithin l x"
    and "0 \<le> l" and "l \<le> u" and "u + 1 < 2 ^ 53"
  shows "storeInv (snd (perform x s)) \<and> ordersWithin l (u + 1) (snd (perform x s))"
proof (cases x)
  case (Create v)
  then show ?thesis using post_within [OF assms(1,2,4,5,6)] by simp
next
  case (Update p b now)
  have "ordersWithin l u (snd (patch_todos p b now s))"
    using patch_within [OF assms(1,2) _ assms(5)] assms(3) Update by simp
  then have "ordersWithin l (u + 1) (snd (patch_todos p b now s))"
    by (rule ordersWithin_mono) simp
  moreover have "storeInv (snd (patch_todos p b now s))"
    using assms(1) by (simp add: storeInv_def uniqueIds_patch distinctOrders_patch)
  ultimately show ?thesis using Update by simp
next
  case (Delete p)
  have "ordersWithin l u (snd (delete_todos p s))"
    using assms(2) docs_delete_subset [of p s] by (auto simp: ordersWithin_def list_all_iff)
  then have "ordersWithin l (u + 1) (snd (delete_todos p s))"
    by (rule ordersWithin_mono) simp
  then show ?thesis using Delete storeInv_delete [OF assms(1)] by simp
qed

lemma run_within:
  assumes "storeInv s" and "ordersWithin l u s" and "list_all (suppliedOrderWithin l) ops"
    and "0 \<le> l" and "l \<le> u" and "u + int (length ops) < 2 ^ 53"
  shows "storeInv (run ops s)"
  using assms
proof (induction ops arbitrary: s u)
  case Nil
  then show ?case by simp
next
  case (Cons x xs)
  have u1: "u + 1 < 2 ^ 53" using Cons.prems(6) by simp
  have sx: "suppliedOrderWithin l x" and sxs: "list_all (suppliedOrderWithin l) xs"
    using Cons.prems(3) by simp_all
  have st: "storeInv (snd (perform x s)) \<and> ordersWithin l (u + 1) (snd (perform x s))"
    by (rule perform_within [OF Cons.prems(1,2) sx Cons.prems(4,5) u1])
  have "storeInv (run xs (snd (perform x s)))"
  proof (rule Cons.IH [of "snd (perform x s)" "u + 1"])
    show "storeInv (snd (perform x s))" using st by simp
    show "ordersWithin l (u + 1) (snd (perform x s))" using st by simp
    show "list_all (suppliedOrderWithin l) xs" by (rule sxs)
    show "0 \<le> l" by (rule Cons.prems(4))
    show "l \<le> u + 1" using Cons.prems(5) by simp
    show "u + 1 + int (length xs) < 2 ^ 53" using Cons.prems(6) by simp
  qed
  then show ?case by simp
qed

subsection \<open>Looking documents up after a PATCH\<close>

lemma findOneByOrder_unique:
  assumes d: "distinct (map todo_order (docs s))" and c: "c \<in> set (docs s)"
  shows "findOneByOrder s (todo_order c) = Some c"
proof (cases "findOneByOrder s (todo_order c)")
  case None
  then show ?thesis using findOneByOrder_None [OF None] c by blast
next
  case (Some c')
  then have "c' \<in> set (docs s)" "todo_order c' = todo_order c"
    by (auto dest: findOneByOrder_Some)
  then have "c' = c" using same_key_same_doc [OF d _ c] by blast
  then show ?thesis using Some by simp
qed

lemma lookupById_unique:
  assumes u: "distinct (map todo_id (docs s))" and c: "c \<in> set (docs s)"
  shows "lookupById s (todo_id c) = Some c"
proof (cases "lookupById s (todo_id c)")
  case None
  then show ?thesis using c by (auto simp: lookupById_None)
next
  case (Some c')
  then have "c' \<in> set (docs s)" "todo_id c' = todo_id c"
    by (auto dest: lookupById_Some)
  then have "c' = c" using same_key_same_doc [OF u _ c] by blast
  then show ?thesis using Some by simp
qed

lemma saveDoc_same:
  assumes u: "distinct (map todo_id (docs s))" and c: "c \<in> set (docs s)"
  shows "saveDoc c s = s"
proof -
  have "\<And>t. t \<in> set (docs s) \<Longrightarrow> (if todo_id t = todo_id c then c else t) = t"
    using same_key_same_doc [OF u _ c] by auto
  then have "map (\<lambda>t. if todo_id t = todo_id c then c else t) (docs s) = docs s"
    by (simp add: map_idI)
  then show ?thesis by (simp add: saveDoc_def)
qed

lemma find_replaced_id:
  assumes "todo_id d = i"
  shows "find (\<lambda>t. todo_id t = j) (map (\<lambda>t. if todo_id t = i then d else t) ds) =
     (if j = i then (if j \<in> todo_id ` set ds then Some d else None)
      else find (\<lambda>t. todo_id t = j) ds)"
  using find_replaced [of j d ds] assms by simp

lemma patch_lookup:
  assumes a: "lookupById s i = Some a"
  shows "lookupById (snd (patch_todos (ObjectId i) b now s)) j =
     (if j = i
      then Some (changeValue (req_value b) (changeDone (req_done b) now
                   (a\<lparr>todo_order := effOrder (req_order b) (todo_order a)\<rparr>)))
      else lookupById (snd (changeOrder (req_order b) a s)) j)"
proof -
  from a have ai: "todo_id a = i" and am: "a \<in> set (docs s)" by (auto dest: lookupById_Some)
  define s1 where "s1 = snd (changeOrder (req_order b) a s)"
  define cur where "cur = changeValue (req_value b) (changeDone (req_done b) now (fst (changeOrder (req_order b) a s)))"
  have f: "fst (changeOrder (req_order b) a s) = a\<lparr>todo_order := effOrder (req_order b) (todo_order a)\<rparr>"
    by (auto simp: changeOrder_def effOrder_def split: option.splits)
  have idc: "todo_id cur = i" by (simp add: cur_def changeOrder_fst ai)
  have dp: "docs (snd (patch_todos (ObjectId i) b now s)) = map (\<lambda>t. if todo_id t = i then cur else t) (docs s1)"
    using docs_patch [OF a, of b now] by (simp add: ai cur_def s1_def)
  have "i \<in> set (map todo_id (docs s1))"
    unfolding s1_def changeOrder_ids using am ai by auto
  then have mem: "i \<in> todo_id ` set (docs s1)" by (simp only: set_map)
  have "lookupById (snd (patch_todos (ObjectId i) b now s)) j = (if j = i then Some cur else lookupById s1 j)"
    unfolding lookupById_def dp find_replaced_id [OF idc] using mem by simp
  then show ?thesis by (simp add: cur_def s1_def f)
qed

lemma patch_others_swap:
  assumes u: "distinct (map todo_id (docs s))" and d: "distinct (map todo_order (docs s))"
    and a: "lookupById s i = Some a" and k: "req_order b = Some k" "truthy_num k"
    and c: "c \<in> set (docs s)" "todo_id c \<noteq> i"
  shows "lookupById (snd (patch_todos (ObjectId i) b now s)) (todo_id c) =
         Some (if todo_order c = k then c\<lparr>todo_order := todo_order a\<rparr> else c)"
proof -
  have fc: "lookupById s (todo_id c) = Some c" by (rule lookupById_unique [OF u c(1)])
  show ?thesis
  proof (cases "findOneByOrder s k")
    case None
    then have "todo_order c \<noteq> k" using findOneByOrder_None [OF None] c(1) by blast
    then show ?thesis
      using c(2) fc by (simp add: patch_lookup [OF a] k docs_changeOrder_none [OF k(2) None])
  next
    case (Some c')
    then have c': "c' \<in> set (docs s)" "todo_order c' = k" by (auto dest: findOneByOrder_Some)
    have eq: "todo_order c = k \<longleftrightarrow> c = c'"
      using same_key_same_doc [OF d c(1) c'(1)] c'(2) by auto
    have ideq: "todo_id c = todo_id c' \<longleftrightarrow> c = c'"
      using same_key_same_doc [OF u c(1) c'(1)] by auto
    show ?thesis
      using c(2) fc eq ideq
      by (auto simp: patch_lookup [OF a] k docs_changeOrder_some [OF k(2) Some] lookupById_saveDoc)
  qed
qed

lemma uniqueIds_distinct: "uniqueIds s \<Longrightarrow> distinct (map todo_id (docs s))"
  by (simp add: uniqueIds_def)

lemma changeOrder_own_order:
  assumes u: "distinct (map todo_id (docs s))" and am: "a \<in> set (docs s)"
  shows "changeOrder (Some (todo_order a)) a s = (a, s)"
proof (cases "truthy_num (todo_order a)")
  case False
  then show ?thesis by (simp add: changeOrder_def)
next
  case True
  show ?thesis
  proof (cases "findOneByOrder s (todo_order a)")
    case None
    then show ?thesis using findOneByOrder_None [OF None] am by blast
  next
    case (Some c)
    then have c: "c \<in> set (docs s)" "todo_order c = todo_order a"
      by (auto dest: findOneByOrder_Some)
    then have "c\<lparr>todo_order := todo_order a\<rparr> = c" by simp
    then have "saveDoc (c\<lparr>todo_order := todo_order a\<rparr>) s = s"
      using saveDoc_same [OF u c(1)] by simp
    then show ?thesis using True Some by (simp add: changeOrder_def)
  qed
qed

subsection \<open>Sequences of Creates\<close>

lemma exactNext_after_create:
  assumes "todo_order d = exactNext s"
  shows "exactNext (s\<lparr>docs := docs s @ [d], nextId := n\<rparr>) = exactNext s + 1"
    and "Max (todo_order ` set (docs (s\<lparr>docs := docs s @ [d], nextId := n\<rparr>))) = exactNext s"
proof -
  have "\<And>k. k \<in> todo_order ` set (docs s) \<Longrightarrow> k \<le> exactNext s"
    using exactNext_fresh [of _ s] by force
  then have m: "Max (insert (exactNext s) (todo_order ` set (docs s))) = exactNext s"
    by (intro Max_insert2) auto
  then show "exactNext (s\<lparr>docs := docs s @ [d], nextId := n\<rparr>) = exactNext s + 1"
    using assms by (simp add: exactNext_def)
  show "Max (todo_order ` set (docs (s\<lparr>docs := docs s @ [d], nextId := n\<rparr>))) = exactNext s"
    using assms m by simp
qed

text \<open>Room for \<open>n\<close> more Creates before the orders reach \<open>2 ^ 53\<close>.\<close>

lemma create_step:
  assumes c: "createdTodoSchema b = Inr x"
    and r: "1 \<le> exactNext s" "exactNext s < 2 ^ 53"
  obtains d s' where "post_todos b s = (Response 201 (TodoBody d), s')"
    and "todo_order d = exactNext s" and "docs s' = docs s @ [d]"
    and "exactNext s' = exactNext s + 1"
proof -
  have n: "nextOrder s = exactNext s"
  proof (cases "docs s = []")
    case True
    then show ?thesis by (simp add: nextOrder_def exactNext_def)
  next
    case False
    have "jsAdd1 (Max (todo_order ` set (docs s))) = Max (todo_order ` set (docs s)) + 1"
      using r False by (intro jsAdd1_exact) (auto simp: exactNext_def)
    then show ?thesis using False by (simp add: nextOrder_def exactNext_def)
  qed
  define d where "d = \<lparr>todo_id = nextId s, todo_value = x, todo_order = nextOrder s, todo_doneAt = None\<rparr>"
  define s' where "s' = s\<lparr>docs := docs s @ [d], nextId := Suc (nextId s)\<rparr>"
  have p: "post_todos b s = (Response 201 (TodoBody d), s')"
    unfolding d_def s'_def by (rule post_todos_valid [OF c])
  have o: "todo_order d = exactNext s" by (simp add: d_def n)
  have "exactNext s' = exactNext s + 1"
    unfolding s'_def by (rule exactNext_after_create(1) [OF o])
  then show ?thesis using that [OF p o] by (simp add: s'_def)
qed

lemma outcomes_creates:
  assumes "\<forall>b\<in>set bs. \<exists>x. createdTodoSchema b = Inr x"
    and "1 \<le> exactNext s" and "exactNext s + int (length bs) \<le> 2 ^ 53"
  shows "map assignedOrder (outcomes (map Create bs) s) =
         map Some [exactNext s .. exactNext s + int (length bs) - 1]"
  using assms
proof (induction bs arbitrary: s)
  case Nil
  then show ?case by simp
next
  case (Cons b bs)
  obtain x where v: "createdTodoSchema b = Inr x" using Cons.prems(1) by auto
  have r: "exactNext s < 2 ^ 53" using Cons.prems(3) by simp
  obtain d s' where p: "post_todos b s = (Response 201 (TodoBody d), s')"
    and o: "todo_order d = exactNext s" and n: "exactNext s' = exactNext s + 1"
    using create_step [OF v Cons.prems(2) r] by metis
  have ih: "map assignedOrder (outcomes (map Create bs) s') =
         map Some [exactNext s + 1 .. exactNext s + int (length bs)]"
    using Cons.IH [of s'] Cons.prems by (simp add: n)
  have "[exactNext s .. exactNext s + int (length (b # bs)) - 1]
          = exactNext s # [exactNext s + 1 .. exactNext s + int (length bs)]"
    by (simp add: upto_rec1)
  then show ?case using ih by (simp add: p o)
qed

lemma stored_creates:
  assumes "\<forall>b\<in>set bs. \<exists>x. createdTodoSchema b = Inr x"
    and "1 \<le> exactNext s" and "exactNext s + int (length bs) \<le> 2 ^ 53"
  shows "map todo_order (docs (run (map Create bs) s)) =
         map todo_order (docs s) @ [exactNext s .. exactNext s + int (length bs) - 1]"
  using assms
proof (induction bs arbitrary: s)
  case Nil
  then show ?case by simp
next
  case (Cons b bs)
  obtain x where v: "createdTodoSchema b = Inr x" using Cons.prems(1) by auto
  have r: "exactNext s < 2 ^ 53" using Cons.prems(3) by simp
  obtain d s' where p: "post_todos b s = (Response 201 (TodoBody d), s')"
    and o: "todo_order d = exactNext s" and ds: "docs s' = docs s @ [d]"
    and n: "exactNext s' = exactNext s + 1"
    using create_step [OF v Cons.prems(2) r] by metis
  have ih: "map todo_order (docs (run (map Create bs) s')) =
         map todo_order (docs s') @ [exactNext s + 1 .. exactNext s + int (length bs)]"
    using Cons.IH [of s'] Cons.prems by (simp add: n)
  have "[exactNext s .. exactNext s + int (length (b # bs)) - 1]
          = exactNext s # [exactNext s + 1 .. exactNext s + int (length bs)]"
    by (simp add: upto_rec1)
  then show ?case using ih by (simp add: p o ds)
qed

lemma exactNext_empty: "exactNext emptyStore = 1"
  by (simp add: exactNext_def emptyStore_def)

subsection \<open>Facts about List\<close>

lemma desc_strict:
  "sorted_wrt (\<lambda>t u. todo_order u \<le> todo_order t) ds \<Longrightarrow> distinct (map todo_order ds) \<Longrightarrow>
   sorted_wrt (\<lambda>t u. todo_order u < todo_order t) ds"
proof (induction ds)
  case Nil
  then show ?case by simp
next
  case (Cons t ts)
  have "todo_order u < todo_order t" if "u \<in> set ts" for u
  proof -
    have "todo_order u \<le> todo_order t" using Cons.prems(1) that by simp
    moreover have "todo_order t \<notin> todo_order ` set ts" using Cons.prems(2) by simp
    then have "todo_order u \<noteq> todo_order t" using that by (metis imageI)
    ultimately show ?thesis by simp
  qed
  then show ?case using Cons by simp
qed

lemma sortDescOrder_distinct:
  "distinct (map todo_order (sortDescOrder ds)) = distinct (map todo_order ds)"
proof -
  have "mset (map todo_order (sortDescOrder ds)) = mset (map todo_order ds)" by simp
  then show ?thesis by (rule mset_eq_imp_distinct_iff)
qed

lemma findSortDesc_strict:
  "distinctOrders s \<Longrightarrow> sorted_wrt (\<lambda>t u. todo_order u < todo_order t) (findSortDesc s)"
  unfolding findSortDesc_def distinctOrders_def
  by (intro desc_strict sortDescOrder_sorted) (simp add: sortDescOrder_distinct)

subsection \<open>Values are only written by Create and by the value change of Update\<close>

lemma values_post:
  assumes "\<forall>t\<in>set (docs s). P (todo_value t)" and "\<And>x. 1 \<le> length x \<Longrightarrow> length x \<le> 50 \<Longrightarrow> P x"
  shows "\<forall>t\<in>set (docs (snd (post_todos v s))). P (todo_value t)"
proof (cases "createdTodoSchema v")
  case (Inl e)
  then show ?thesis using assms(1) by (simp add: post_todos_invalid)
next
  case (Inr x)
  then have "P x" using assms(2) createdTodoSchema_bounds [OF Inr] by simp
  then show ?thesis using assms(1) by (simp add: post_todos_valid [OF Inr])
qed

lemma values_changeOrder:
  assumes "\<forall>t\<in>set (docs s). P (todo_value t)"
  shows "\<forall>t\<in>set (docs (snd (changeOrder r a s))). P (todo_value t)"
proof -
  have "\<forall>t\<in>set (docs (saveDoc (c\<lparr>todo_order := k\<rparr>) s)). P (todo_value t)"
    if "c \<in> set (docs s)" for c k
    using assms that by (auto simp: saveDoc_def)
  then show ?thesis using assms
    by (auto simp: changeOrder_def split: option.splits dest: findOneByOrder_Some)
qed

lemma values_patch_ObjectId:
  assumes "\<forall>t\<in>set (docs s). P (todo_value t)"
    and "\<And>x. req_value b = Some x \<Longrightarrow> x \<noteq> [] \<Longrightarrow> P x"
  shows "\<forall>t\<in>set (docs (snd (patch_todos (ObjectId i) b now s))). P (todo_value t)"
proof (cases "lookupById s i")
  case None
  then show ?thesis using assms(1) by (simp add: patch_todos_ObjectId)
next
  case (Some a)
  then have "P (todo_value a)" using assms(1) by (auto dest: lookupById_Some)
  moreover have "todo_value (fst (changeOrder (req_order b) a s)) = todo_value a"
    by (auto simp: changeOrder_def split: option.splits)
  ultimately have "P (todo_value (changeValue (req_value b) (changeDone (req_done b) now
                      (fst (changeOrder (req_order b) a s)))))"
    using assms(2) by (auto simp: changeValue_def changeDone_def truthy_str_def split: option.splits)
  then show ?thesis
    using values_changeOrder [OF assms(1), of "req_order b" a]
    by (auto simp: docs_patch [OF Some])
qed

lemma values_patch:
  assumes "\<forall>t\<in>set (docs s). P (todo_value t)"
    and "\<And>x. req_value b = Some x \<Longrightarrow> x \<noteq> [] \<Longrightarrow> P x"
  shows "\<forall>t\<in>set (docs (snd (patch_todos p b now s))). P (todo_value t)"
proof (cases p)
  case Malformed
  then show ?thesis using assms(1) by (simp add: patch_todos_Malformed)
next
  case (ObjectId i)
  show ?thesis unfolding ObjectId by (rule values_patch_ObjectId [OF assms])
qed

lemma values_delete:
  assumes "\<forall>t\<in>set (docs s). P (todo_value t)"
  shows "\<forall>t\<in>set (docs (snd (delete_todos p s))). P (todo_value t)"
  using assms docs_delete_subset [of p s] by auto

lemma values_nonempty_run:
  "\<forall>t\<in>set (docs s). 1 \<le> length (todo_value t) \<Longrightarrow>
   \<forall>t\<in>set (docs (run ops s)). 1 \<le> length (todo_value t)"
proof (induction ops arbitrary: s)
  case Nil
  then show ?case by simp
next
  case (Cons x xs)
  have "\<forall>t\<in>set (docs (snd (perform x s))). 1 \<le> length (todo_value t)"
  proof (cases x)
    case (Create v)
    then show ?thesis using values_post [OF Cons.prems, of v] by simp
  next
    case (Update i b now)
    have "\<forall>t\<in>set (docs (snd (patch_todos i b now s))). 1 \<le> length (todo_value t)"
      by (rule values_patch [where P = "\<lambda>x. 1 \<le> length x", OF Cons.prems]) (simp add: Suc_le_eq)
    then show ?thesis using Update by simp
  next
    case (Delete i)
    then show ?thesis using values_delete [OF Cons.prems, of i] by simp
  qed
  then show ?case using Cons.IH by simp
qed

lemma values_bounded_run:
  "\<forall>t\<in>set (docs s). length (todo_value t) \<le> 50 \<Longrightarrow> list_all suppliedValueOk ops \<Longrightarrow>
   \<forall>t\<in>set (docs (run ops s)). length (todo_value t) \<le> 50"
proof (induction ops arbitrary: s)
  case Nil
  then show ?case by simp
next
  case (Cons x xs)
  have "\<forall>t\<in>set (docs (snd (perform x s))). length (todo_value t) \<le> 50"
  proof (cases x)
    case (Create v)
    then show ?thesis using values_post [OF Cons.prems(1), of v] by simp
  next
    case (Update i b now)
    then have ok: "\<And>x. req_value b = Some x \<Longrightarrow> length x \<le> 50" using Cons.prems(2) by simp
    have "\<forall>t\<in>set (docs (snd (patch_todos i b now s))). length (todo_value t) \<le> 50"
      by (rule values_patch [where P = "\<lambda>x. length x \<le> 50", OF Cons.prems(1)]) (rule ok)
    then show ?thesis using Update by simp
  next
    case (Delete i)
    then show ?thesis using values_delete [OF Cons.prems(1), of i] by simp
  qed
  then show ?case using Cons.IH Cons.prems(2) by simp
qed

subsection \<open>The example store\<close>

lemma storeAB_facts:
  "uniqueIds storeAB" "distinctOrders storeAB"
  "findById storeAB (ObjectId 0) = Inr (Some todoA)" "findById storeAB (ObjectId 1) = Inr (Some todoB)"
  by (simp_all add: uniqueIds_def distinctOrders_def storeAB_def todoA_def todoB_def lookupById_def)

lemma storeAB_reachable:
  "run [Create (valueBody ''buy milk''), Create (valueBody ''walk dog'')] emptyStore = storeAB"
  by code_simp

section \<open>C1: order values stay pairwise distinct\<close>

text \<open>
  C1, as the code has it. Let every order that an Update of the sequence supplies have a
  magnitude of at most \<open>l\<close>, and let \<open>l\<close> plus the number of operations be below
  \<open>2 ^ 53\<close>. Then, starting from the empty store, after every operation of the
  sequence of Create, Update and Delete requests (executed one after the other) the
  order values of the Items in the store are pairwise distinct. The state after the
  first \<open>n\<close> operations is \<open>run (take n ops) emptyStore\<close>.
\<close>

theorem orders_pairwise_distinct:
  assumes "list_all (suppliedOrderWithin l) ops" and "0 \<le> l"
    and "l + int (length ops) < 2 ^ 53"
  shows "distinct (map todo_order (docs (run (take n ops) emptyStore)))"
proof -
  have "storeInv (run (take n ops) emptyStore)"
  proof (rule run_within [of emptyStore l l])
    show "storeInv emptyStore" by (rule storeInv_empty)
    show "ordersWithin l l emptyStore" by (simp add: ordersWithin_def emptyStore_def)
    show "list_all (suppliedOrderWithin l) (take n ops)"
      using assms(1) set_take_subset [of n ops] by (auto simp: list_all_iff)
    show "0 \<le> l" by (rule assms(2))
    show "l \<le> l" by simp
    show "l + int (length (take n ops)) < 2 ^ 53" using assms(3) by simp
  qed
  then show ?thesis by (simp add: storeInv_def distinctOrders_def)
qed

theorem orders_pairwise_distinct_witness:
  "list_all (suppliedOrderWithin 5)
     [Create (valueBody ''a''), Update (ObjectId 0) (orderOnly 5) 0, Create (valueBody ''b'')]
   \<and> (0::int) \<le> 5
   \<and> 5 + int (length [Create (valueBody ''a''), Update (ObjectId 0) (orderOnly 5) 0,
                       Create (valueBody ''b'')]) < 2 ^ 53
   \<and> map todo_order (docs (run
        [Create (valueBody ''a''), Update (ObjectId 0) (orderOnly 5) 0, Create (valueBody ''b'')]
        emptyStore)) = [5, 6]
   \<and> distinct (map todo_order (docs (run (take 3
        [Create (valueBody ''a''), Update (ObjectId 0) (orderOnly 5) 0, Create (valueBody ''b'')])
        emptyStore)))"
proof -
  have h1: "list_all (suppliedOrderWithin 5)
     [Create (valueBody ''a''), Update (ObjectId 0) (orderOnly 5) 0, Create (valueBody ''b'')]"
    by (simp add: orderOnly_def)
  have h2: "(0::int) \<le> 5" by simp
  have h3: "5 + int (length [Create (valueBody ''a''), Update (ObjectId 0) (orderOnly 5) 0,
                       Create (valueBody ''b'')]) < 2 ^ 53" by simp
  have v: "map todo_order (docs (run
        [Create (valueBody ''a''), Update (ObjectId 0) (orderOnly 5) 0, Create (valueBody ''b'')]
        emptyStore)) = [5, 6]"
    by code_simp
  show ?thesis
    using h1 h2 h3 v orders_pairwise_distinct [OF h1 h2 h3, of 3] by blast
qed

text \<open>
  Without the bound the claim fails: line 40 adds 1 to a Number, and
  \<open>2 ^ 53 + 1\<close> is not a Number; the sum is \<open>2 ^ 53\<close> again. After a Create, an
  Update of that Item with order \<open>2 ^ 53 = 9007199254740992\<close> and a second Create, both
  Items hold order \<open>2 ^ 53\<close>.
\<close>

theorem orders_collide_at_2_53:
  "map todo_order (docs (run
     [Create (valueBody ''a''), Update (ObjectId 0) (orderOnly 9007199254740992) 0,
      Create (valueBody ''b'')] emptyStore))
   = [9007199254740992, 9007199254740992]"
  by code_simp

section \<open>C2: an Update with another Item's order exchanges the two orders\<close>

text \<open>
  When the order change runs, it exchanges the two orders: in a store with unique
  identifiers and pairwise distinct orders, where \<open>a\<close> (identifier \<open>i\<close>) and a distinct
  \<open>c\<close> (identifier \<open>j\<close>) exist and the order of \<open>c\<close> is not 0, an Update of \<open>i\<close>
  whose \<open>order\<close> is the order of \<open>c\<close> gives \<open>a\<close> the old order of \<open>c\<close> and \<open>c\<close>
  the old order of \<open>a\<close>; \<open>c\<close> is otherwise unchanged, every other Item is unchanged in
  all its fields, and no Item is added or removed.
\<close>

lemma swap_when_order_nonzero:
  assumes "uniqueIds s" and "distinctOrders s"
    and "findById s (ObjectId i) = Inr (Some a)" and "findById s (ObjectId j) = Inr (Some c)"
    and "i \<noteq> j" and "todo_order c \<noteq> 0" and "req_order b = Some (todo_order c)"
  shows "findById (snd (patch_todos (ObjectId i) b now s)) (ObjectId i) =
           Inr (Some (changeValue (req_value b) (changeDone (req_done b) now (a\<lparr>todo_order := todo_order c\<rparr>))))
       \<and> findById (snd (patch_todos (ObjectId i) b now s)) (ObjectId j) = Inr (Some (c\<lparr>todo_order := todo_order a\<rparr>))
       \<and> (\<forall>l. l \<noteq> i \<and> l \<noteq> j \<longrightarrow>
            findById (snd (patch_todos (ObjectId i) b now s)) (ObjectId l) = findById s (ObjectId l))
       \<and> map todo_id (docs (snd (patch_todos (ObjectId i) b now s))) = map todo_id (docs s)"
proof -
  have a: "lookupById s i = Some a" and c: "lookupById s j = Some c" using assms(3,4) by simp_all
  have d: "distinct (map todo_order (docs s))" using assms(2) by (simp add: distinctOrders_def)
  from c have cm: "c \<in> set (docs s)" and cj: "todo_id c = j" by (auto dest: lookupById_Some)
  have t: "truthy_num (todo_order c)" using assms(6) by (simp add: truthy_num_def)
  have co: "changeOrder (req_order b) a s
              = (a\<lparr>todo_order := todo_order c\<rparr>, saveDoc (c\<lparr>todo_order := todo_order a\<rparr>) s)"
    using docs_changeOrder_some [OF t findOneByOrder_unique [OF d cm]] assms(7) by simp
  have eo: "effOrder (req_order b) (todo_order a) = todo_order c"
    using t assms(7) by (simp add: effOrder_def)
  show ?thesis
    using c assms(5) cj
    by (simp add: patch_lookup [OF a] co eo lookupById_saveDoc patch_ids)
qed

text \<open>
  C2. The claim: for every store in which Item A and a distinct Item B exist,
  Update(A.id, {order: B.order}) exchanges the order values of A and B and changes nothing
  else but A's own fields. The code misses the claim where B holds order 0: the guard
  \<^verbatim>\<open>if (order)\<close> takes the supplied 0 for an omitted field. Create, Update with order
  -1, Create leaves Item 0 with order -1 and Item 1 with the order 0 that Create assigned;
  the Update of Item 0 with order 0 then exchanges nothing.
\<close>

theorem zero_order_not_exchanged:
  "map (\<lambda>t. (todo_id t, todo_order t))
     (docs (run [Create (valueBody ''a''), Update (ObjectId 0) (orderOnly (- 1)) 0,
                 Create (valueBody ''b'')] emptyStore)) = [(0, - 1), (1, 0)]
   \<and> map (\<lambda>t. (todo_id t, todo_order t))
     (docs (snd (patch_todos (ObjectId 0) (orderOnly 0) 5
        (run [Create (valueBody ''a''), Update (ObjectId 0) (orderOnly (- 1)) 0,
              Create (valueBody ''b'')] emptyStore)))) = [(0, - 1), (1, 0)]"
  by code_simp

section \<open>C3: Create appends after the greatest order\<close>

text \<open>
  C3, as the code has it. In every store whose greatest order plus 1 lies strictly
  between \<open>- 2 ^ 53\<close> and \<open>2 ^ 53\<close>, a Create with a body that the schema accepts
  assigns the new Item the greatest existing order plus 1; in the empty store it assigns
  1. Consequently \<open>n\<close> such Creates, with \<open>n\<close> below \<open>2 ^ 53\<close>, starting from the empty
  store with nothing in between, are assigned the orders 1, 2, ..., \<open>n\<close> in call order,
  both in the responses and in the stored documents.
\<close>

theorem create_assigns_next_order:
  "(\<forall>x. createdTodoSchema b = Inr x
        \<and> (docs s = [] \<or> (- (2 ^ 53) < Max (todo_order ` set (docs s)) + 1
                            \<and> Max (todo_order ` set (docs s)) + 1 < 2 ^ 53)) \<longrightarrow>
      assignedOrder (fst (post_todos b s)) =
        Some (if docs s = [] then 1 else Max (todo_order ` set (docs s)) + 1))
   \<and> ((\<forall>b\<in>set bs. \<exists>x. createdTodoSchema b = Inr x) \<and> int (length bs) < 2 ^ 53 \<longrightarrow>
        map assignedOrder (outcomes (map Create bs) emptyStore) = map Some [1 .. int (length bs)]
        \<and> map todo_order (docs (run (map Create bs) emptyStore)) = [1 .. int (length bs)])"
proof -
  have one: "assignedOrder (fst (post_todos b s)) =
        Some (if docs s = [] then 1 else Max (todo_order ` set (docs s)) + 1)"
    if c: "createdTodoSchema b = Inr x"
      and r: "docs s = [] \<or> (- (2 ^ 53) < Max (todo_order ` set (docs s)) + 1
                            \<and> Max (todo_order ` set (docs s)) + 1 < 2 ^ 53)" for x
  proof (cases "docs s = []")
    case True
    then show ?thesis by (simp add: post_todos_valid [OF c] nextOrder_def)
  next
    case False
    then have "jsAdd1 (Max (todo_order ` set (docs s))) = Max (todo_order ` set (docs s)) + 1"
      using r by (intro jsAdd1_exact) auto
    then show ?thesis using False by (simp add: post_todos_valid [OF c] nextOrder_def)
  qed
  have many: "map assignedOrder (outcomes (map Create bs) emptyStore) = map Some [1 .. int (length bs)]
        \<and> map todo_order (docs (run (map Create bs) emptyStore)) = [1 .. int (length bs)]"
    if v: "\<forall>b\<in>set bs. \<exists>x. createdTodoSchema b = Inr x" and n: "int (length bs) < 2 ^ 53"
  proof -
    have r: "1 \<le> exactNext emptyStore" "exactNext emptyStore + int (length bs) \<le> 2 ^ 53"
      using n by (simp_all add: exactNext_empty)
    show ?thesis
      using outcomes_creates [OF v r] stored_creates [OF v r]
      by (simp add: exactNext_empty) (simp add: emptyStore_def)
  qed
  show ?thesis using one many by blast
qed

theorem create_assigns_next_order_witness:
  "createdTodoSchema (valueBody ''c'') = Inr ''c''
   \<and> - (2 ^ 53) < Max (todo_order ` set (docs storeAB)) + 1
   \<and> Max (todo_order ` set (docs storeAB)) + 1 < 2 ^ 53
   \<and> assignedOrder (fst (post_todos (valueBody ''c'') storeAB)) = Some 3
   \<and> list_all (\<lambda>b. createdTodoSchema b \<noteq> Inl ValidationError)
        [valueBody ''a'', valueBody ''b'', valueBody ''c'']
   \<and> int (length [valueBody ''a'', valueBody ''b'', valueBody ''c'']) < 2 ^ 53
   \<and> map assignedOrder (outcomes (map Create [valueBody ''a'', valueBody ''b'', valueBody ''c'']) emptyStore)
       = [Some 1, Some 2, Some 3]
   \<and> map todo_order (docs (run (map Create [valueBody ''a'', valueBody ''b'', valueBody ''c'']) emptyStore))
       = [1, 2, 3]"
  using create_assigns_next_order [of "valueBody ''c''" storeAB "[valueBody ''a'', valueBody ''b'', valueBody ''c'']"]
  by (simp add: storeAB_def todoA_def todoB_def valueBody_def upto_rec1)

text \<open>
  Without the bound the claim fails at a greatest order of \<open>2 ^ 53\<close>: the store after a
  Create and an Update of that Item with order \<open>2 ^ 53\<close> holds the one order
  \<open>2 ^ 53\<close>, and the next Create is assigned \<open>2 ^ 53\<close>, not \<open>2 ^ 53 + 1\<close>.
\<close>

theorem create_repeats_2_53:
  "map todo_order (docs (run
     [Create (valueBody ''a''), Update (ObjectId 0) (orderOnly 9007199254740992) 0] emptyStore))
     = [9007199254740992]
   \<and> assignedOrder (fst (post_todos (valueBody ''b'') (run
     [Create (valueBody ''a''), Update (ObjectId 0) (orderOnly 9007199254740992) 0] emptyStore)))
     = Some 9007199254740992"
  by code_simp

section \<open>C4: when the order change of an Update runs\<close>

text \<open>
  What the order change does when it runs. For an Update of an existing Item, in a store
  with unique identifiers and pairwise distinct orders, whose \<open>order\<close> is supplied and
  is not 0: the target's order becomes the requested value, and the other Item that held
  that value, if there is one, gets the target's previous order. When \<open>order\<close> is
  omitted, no order in the store changes.
\<close>

lemma order_change_when_nonzero:
  assumes "uniqueIds s" and "distinctOrders s" and "findById s (ObjectId i) = Inr (Some a)"
  shows "(\<forall>k. req_order b = Some k \<and> k \<noteq> 0 \<longrightarrow>
            map_option todo_order (lookupById (snd (patch_todos (ObjectId i) b now s)) i) = Some k
          \<and> (\<forall>c\<in>set (docs s). todo_id c \<noteq> i \<and> todo_order c = k \<longrightarrow>
                lookupById (snd (patch_todos (ObjectId i) b now s)) (todo_id c) = Some (c\<lparr>todo_order := todo_order a\<rparr>)))
       \<and> (req_order b = None \<longrightarrow>
            map todo_order (docs (snd (patch_todos (ObjectId i) b now s))) = map todo_order (docs s))"
proof -
  have a: "lookupById s i = Some a" using assms(3) by simp
  have u: "distinct (map todo_id (docs s))" using assms(1) by (rule uniqueIds_distinct)
  have d: "distinct (map todo_order (docs s))" using assms(2) by (simp add: distinctOrders_def)
  have run: "map_option todo_order (lookupById (snd (patch_todos (ObjectId i) b now s)) i) = Some k
          \<and> (\<forall>c\<in>set (docs s). todo_id c \<noteq> i \<and> todo_order c = k \<longrightarrow>
                lookupById (snd (patch_todos (ObjectId i) b now s)) (todo_id c) = Some (c\<lparr>todo_order := todo_order a\<rparr>))"
    if k: "req_order b = Some k" "k \<noteq> 0" for k
  proof -
    have t: "truthy_num k" using k(2) by (simp add: truthy_num_def)
    have "map_option todo_order (lookupById (snd (patch_todos (ObjectId i) b now s)) i) = Some k"
      using k t by (simp add: patch_lookup [OF a] effOrder_def)
    moreover have "lookupById (snd (patch_todos (ObjectId i) b now s)) (todo_id c) = Some (c\<lparr>todo_order := todo_order a\<rparr>)"
      if "c \<in> set (docs s)" "todo_id c \<noteq> i" "todo_order c = k" for c
      using patch_others_swap [OF u d a k(1) t that(1) that(2)] that(3) by simp
    ultimately show ?thesis by blast
  qed
  have skip: "map todo_order (docs (snd (patch_todos (ObjectId i) b now s))) = map todo_order (docs s)"
    if "req_order b = None"
  proof -
    have "effOrder (req_order b) (todo_order a) = todo_order a"
      using that by (auto simp: effOrder_def truthy_num_def)
    then show ?thesis
      by (simp add: patch_orders [OF u d a] swapOrder_def)
  qed
  show ?thesis using run skip by blast
qed

text \<open>
  C4. The claim: for every Update of an existing Item in which the order field is
  supplied (any integer value, including 0), the target's order is set to the requested
  value, and the change is skipped only when order is omitted. The code misses the claim
  at order 0, which the guard \<^verbatim>\<open>if (order)\<close> takes for an omitted field: with Items of
  orders 1 and 2, an Update of the first with order 0 leaves its order at 1.
\<close>

theorem order_zero_is_skipped:
  "findById storeAB (ObjectId 0) = Inr (Some todoA) \<and> todo_order todoA = 1
   \<and> req_order (orderOnly 0) = Some 0
   \<and> fst (patch_todos (ObjectId 0) (orderOnly 0) 5 storeAB) = Response 200 EmptyBody
   \<and> map_option todo_order (lookupById (snd (patch_todos (ObjectId 0) (orderOnly 0) 5 storeAB)) 0) = Some 1"
  by code_simp

section \<open>C5: the length of values\<close>

text \<open>
  C5, as the code has it. After every sequence of Create, Update and Delete requests
  from the empty store, every remaining Item has a non-empty value; and if every value
  that an Update of the sequence supplies has at most 50 characters, every remaining
  Item's value has between 1 and 50 characters. (Create checks both bounds; Update
  overwrites with any non-empty text.)
\<close>

theorem values_nonempty_and_bounded:
  "list_all (\<lambda>t. 1 \<le> length (todo_value t)) (docs (run ops emptyStore))
   \<and> (list_all suppliedValueOk ops \<longrightarrow>
        list_all (\<lambda>t. length (todo_value t) \<le> 50) (docs (run ops emptyStore)))"
  using values_nonempty_run [of emptyStore ops] values_bounded_run [of emptyStore ops]
  by (simp add: emptyStore_def list_all_iff)

theorem values_nonempty_and_bounded_witness:
  "list_all suppliedValueOk
     [Create (valueBody ''buy milk''), Update (ObjectId 0) (valueOnly ''feed cat'') 3,
      Create (valueBody []), Delete (ObjectId 9)]
   \<and> map todo_value (docs (run
     [Create (valueBody ''buy milk''), Update (ObjectId 0) (valueOnly ''feed cat'') 3,
      Create (valueBody []), Delete (ObjectId 9)] emptyStore)) = [''feed cat'']
   \<and> list_all (\<lambda>t. 1 \<le> length (todo_value t) \<and> length (todo_value t) \<le> 50) (docs (run
     [Create (valueBody ''buy milk''), Update (ObjectId 0) (valueOnly ''feed cat'') 3,
      Create (valueBody []), Delete (ObjectId 9)] emptyStore))"
proof -
  have h: "list_all suppliedValueOk
     [Create (valueBody ''buy milk''), Update (ObjectId 0) (valueOnly ''feed cat'') 3,
      Create (valueBody []), Delete (ObjectId 9)]"
    by (simp add: valueOnly_def)
  have v: "map todo_value (docs (run
     [Create (valueBody ''buy milk''), Update (ObjectId 0) (valueOnly ''feed cat'') 3,
      Create (valueBody []), Delete (ObjectId 9)] emptyStore)) = [''feed cat'']"
    by code_simp
  show ?thesis
    using h v values_nonempty_and_bounded [of
     "[Create (valueBody ''buy milk''), Update (ObjectId 0) (valueOnly ''feed cat'') 3,
      Create (valueBody []), Delete (ObjectId 9)]"]
    by (simp add: list_all_iff)
qed

text \<open>
  With arbitrary texts supplied to Update the upper bound is lost: after a Create, an
  Update with a value of 51 characters stores it.
\<close>

theorem update_stores_long_value:
  "map (\<lambda>t. length (todo_value t))
     (docs (run [Create (valueBody ''a''), Update (ObjectId 0) (valueOnly (replicate 51 CHR ''a'')) 0]
        emptyStore))
   = [51]"
  by code_simp

section \<open>C6: the completion flag\<close>

text \<open>
  C6. For every Update of an existing Item: with \<open>done = true\<close> its \<open>doneAt\<close>
  becomes the time of the request (not absent); with \<open>done = false\<close> it becomes
  absent; with \<open>done\<close> omitted it is what it was before the call.
\<close>

theorem done_sets_doneAt:
  assumes "findById s (ObjectId i) = Inr (Some a)"
  shows "(req_done b = Some True \<longrightarrow>
            map_option todo_doneAt (lookupById (snd (patch_todos (ObjectId i) b now s)) i) = Some (Some now))
       \<and> (req_done b = Some False \<longrightarrow>
            map_option todo_doneAt (lookupById (snd (patch_todos (ObjectId i) b now s)) i) = Some None)
       \<and> (req_done b = None \<longrightarrow>
            map_option todo_doneAt (lookupById (snd (patch_todos (ObjectId i) b now s)) i) = Some (todo_doneAt a))"
proof -
  have a: "lookupById s i = Some a" using assms by simp
  show ?thesis
    by (simp add: patch_lookup [OF a] changeDone_def changeValue_def split: option.splits)
qed

theorem done_sets_doneAt_witness:
  "findById storeAB (ObjectId 0) = Inr (Some todoA)
   \<and> map_option todo_doneAt (lookupById (snd (patch_todos (ObjectId 0) (doneOnly True) 5 storeAB)) 0) = Some (Some 5)
   \<and> map_option todo_doneAt (lookupById (snd (patch_todos (ObjectId 0) (doneOnly False) 5 storeAB)) 0) = Some None
   \<and> map_option todo_doneAt (lookupById (snd (patch_todos (ObjectId 0) (orderOnly 2) 5 storeAB)) 0) = Some None"
  using storeAB_facts(3)
    done_sets_doneAt [OF storeAB_facts(3), of "doneOnly True" 5]
    done_sets_doneAt [OF storeAB_facts(3), of "doneOnly False" 5]
    done_sets_doneAt [OF storeAB_facts(3), of "orderOnly 2" 5]
  by (simp add: doneOnly_def orderOnly_def todoA_def)

section \<open>C7: validation in Create\<close>

text \<open>
  C7, as the code has it. A Create whose value is missing, is not a string, or is a
  string of length 0 or of more than 50 characters fails with a validation error (status
  400) and leaves the store unchanged. A Create whose body has no key but \<open>value\<close>,
  holding a string of 1 to 50 characters, answers 201 with the created Item, which
  carries its assigned order and is the one Item appended to the store. A body with any
  other key fails with a validation error and leaves the store unchanged, whatever its
  value.
\<close>

theorem create_validates_value:
  "((valueField b = None \<or> (\<exists>j. valueField b = Some j \<and> (\<forall>x. j \<noteq> JStr x))
      \<or> (\<exists>x. valueField b = Some (JStr x) \<and> (length x = 0 \<or> 50 < length x))) \<longrightarrow>
        post_todos b s = (Next ValidationError, s) \<and> statusOf (fst (post_todos b s)) = Some 400)
   \<and> (\<forall>kvs x. b = JObj kvs \<and> list_all (\<lambda>kv. fst kv = ''value'') kvs
          \<and> valueField b = Some (JStr x) \<and> 1 \<le> length x \<and> length x \<le> 50 \<longrightarrow>
        post_todos b s =
          (Response 201 (TodoBody \<lparr>todo_id = nextId s, todo_value = x,
                                    todo_order = nextOrder s, todo_doneAt = None\<rparr>),
           s\<lparr>docs := docs s @ [\<lparr>todo_id = nextId s, todo_value = x,
                                 todo_order = nextOrder s, todo_doneAt = None\<rparr>],
             nextId := Suc (nextId s)\<rparr>)
        \<and> statusOf (fst (post_todos b s)) = Some 201)
   \<and> (\<forall>kvs. b = JObj kvs \<and> \<not> list_all (\<lambda>kv. fst kv = ''value'') kvs \<longrightarrow>
        post_todos b s = (Next ValidationError, s) \<and> statusOf (fst (post_todos b s)) = Some 400)"
proof -
  have bad: "post_todos b s = (Next ValidationError, s) \<and> statusOf (fst (post_todos b s)) = Some 400"
    if "valueField b = None \<or> (\<exists>j. valueField b = Some j \<and> (\<forall>x. j \<noteq> JStr x))
      \<or> (\<exists>x. valueField b = Some (JStr x) \<and> (length x = 0 \<or> 50 < length x))"
    using createdTodoSchema_bad_value [OF that] by (simp add: post_todos_invalid)
  have good: "post_todos b s =
          (Response 201 (TodoBody \<lparr>todo_id = nextId s, todo_value = x,
                                    todo_order = nextOrder s, todo_doneAt = None\<rparr>),
           s\<lparr>docs := docs s @ [\<lparr>todo_id = nextId s, todo_value = x,
                                 todo_order = nextOrder s, todo_doneAt = None\<rparr>],
             nextId := Suc (nextId s)\<rparr>)
        \<and> statusOf (fst (post_todos b s)) = Some 201"
    if "b = JObj kvs \<and> list_all (\<lambda>kv. fst kv = ''value'') kvs
          \<and> valueField b = Some (JStr x) \<and> 1 \<le> length x \<and> length x \<le> 50" for kvs x
  proof -
    have "createdTodoSchema b = Inr x" using that by (auto simp: createdTodoSchema_Inr)
    then show ?thesis by (simp add: post_todos_valid)
  qed
  have unknown: "post_todos b s = (Next ValidationError, s) \<and> statusOf (fst (post_todos b s)) = Some 400"
    if "b = JObj kvs \<and> \<not> list_all (\<lambda>kv. fst kv = ''value'') kvs" for kvs
  proof -
    have "createdTodoSchema b = Inl ValidationError"
      using that createdTodoSchema_unknown_key [of kvs] by simp
    then show ?thesis by (simp add: post_todos_invalid)
  qed
  show ?thesis using bad good unknown by blast
qed

theorem create_validates_value_witness:
  "valueField (JObj []) = None
   \<and> post_todos (JObj []) emptyStore = (Next ValidationError, emptyStore)
   \<and> valueField (JObj [(''value'', JNum 5)]) = Some (JNum 5)
   \<and> post_todos (JObj [(''value'', JNum 5)]) emptyStore = (Next ValidationError, emptyStore)
   \<and> post_todos (valueBody []) emptyStore = (Next ValidationError, emptyStore)
   \<and> length (replicate 51 CHR ''a'') = 51
   \<and> post_todos (valueBody (replicate 51 CHR ''a'')) emptyStore = (Next ValidationError, emptyStore)
   \<and> statusOf (fst (post_todos (JObj []) emptyStore)) = Some 400
   \<and> post_todos (valueBody ''buy milk'') emptyStore
        = (Response 201 (TodoBody todoA), \<lparr>docs = [todoA], nextId = 1\<rparr>)
   \<and> post_todos (JObj [(''value'', JStr ''a''), (''done'', JBool True)]) storeAB
        = (Next ValidationError, storeAB)"
  using create_validates_value [of "JObj []" emptyStore]
    create_validates_value [of "JObj [(''value'', JNum 5)]" emptyStore]
    create_validates_value [of "valueBody []" emptyStore]
    create_validates_value [of "valueBody (replicate 51 CHR ''a'')" emptyStore]
    create_validates_value [of "valueBody ''buy milk''" emptyStore]
    create_validates_value [of "JObj [(''value'', JStr ''a''), (''done'', JBool True)]" storeAB]
  by (simp add: nextOrder_def emptyStore_def todoA_def valueBody_def)

text \<open>
  The claim promises 201 for every value that is a string of 1 to 50 characters. The
  schema is applied to the whole body and refuses a key that it does not name: the body
  \<^verbatim>\<open>{ value: "a", done: true }\<close> has such a value and is rejected.
\<close>

theorem create_refuses_unknown_key:
  "valueField (JObj [(''value'', JStr ''a''), (''done'', JBool True)]) = Some (JStr ''a'')
   \<and> length ''a'' = 1
   \<and> post_todos (JObj [(''value'', JStr ''a''), (''done'', JBool True)]) emptyStore
       = (Next ValidationError, emptyStore)"
  by code_simp

section \<open>C8: unknown identifiers\<close>

text \<open>
  An ObjectId that no Item has is answered 404 by Update and by Delete, and the store
  stays as it was.
\<close>

lemma unknown_ObjectId_404:
  assumes "findById s (ObjectId i) = Inr None"
  shows "patch_todos (ObjectId i) b now s = (Response 404 (ErrorBody TodoNotFound), s)
       \<and> delete_todos (ObjectId i) s = (Response 404 (ErrorBody TodoInfoNotFound), s)"
  using assms by (simp add: patch_todos_def delete_todos_def)

text \<open>
  C8. The claim: for every id that does not resolve to an existing Item, Update and
  Delete each fail with 404 and leave the store unchanged. The code misses the claim for
  an id that is no ObjectId, such as \<^verbatim>\<open>abc\<close>: \<^verbatim>\<open>Todo.findById\<close> rejects with a
  cast error, the PATCH and DELETE handlers have no \<^verbatim>\<open>try\<close>/\<^verbatim>\<open>catch\<close> (the POST
  handler has one), and no response is sent. The store is left as it was.
\<close>

theorem malformed_id_gets_no_404:
  "findById storeAB Malformed = Inl CastError
   \<and> patch_todos Malformed (valueOnly ''x'') 5 storeAB = (Unhandled CastError, storeAB)
   \<and> delete_todos Malformed storeAB = (Unhandled CastError, storeAB)
   \<and> statusOf (fst (patch_todos Malformed (valueOnly ''x'') 5 storeAB)) = None
   \<and> statusOf (fst (delete_todos Malformed storeAB)) = None"
  by (simp add: patch_todos_def delete_todos_def)

section \<open>C9: List\<close>

text \<open>
  C9, as the code has it. In every store, List answers 200 with all Items of the store
  (each exactly once), sorted by order descending, and returns the store as it was; on an
  empty store the answer is the empty collection. The sort is strictly descending when
  the orders of the store are pairwise distinct.
\<close>

theorem list_sorted_descending:
  "get_todos s = (Response 200 (TodosBody (findSortDesc s)), s)
   \<and> mset (findSortDesc s) = mset (docs s)
   \<and> sorted_wrt (\<lambda>t u. todo_order u \<le> todo_order t) (findSortDesc s)
   \<and> (distinctOrders s \<longrightarrow> sorted_wrt (\<lambda>t u. todo_order u < todo_order t) (findSortDesc s))
   \<and> (docs s = [] \<longrightarrow> get_todos s = (Response 200 (TodosBody []), s))"
proof -
  have "docs s = [] \<longrightarrow> get_todos s = (Response 200 (TodosBody []), s)"
    by (simp add: get_todos_def findSortDesc_def sortDescOrder_def)
  then show ?thesis
    using findSortDesc_strict [of s] sortDescOrder_sorted [of "docs s"]
    by (simp add: get_todos_def findSortDesc_def)
qed

theorem list_sorted_descending_witness:
  "distinctOrders storeAB
   \<and> get_todos storeAB = (Response 200 (TodosBody [todoB, todoA]), storeAB)
   \<and> sorted_wrt (\<lambda>t u. todo_order u < todo_order t) (findSortDesc storeAB)
   \<and> docs emptyStore = []
   \<and> get_todos emptyStore = (Response 200 (TodosBody []), emptyStore)"
proof -
  have "findSortDesc storeAB = [todoB, todoA]"
    by (simp add: findSortDesc_def sortDescOrder_def storeAB_def todoA_def todoB_def)
  then show ?thesis
    using storeAB_facts(2) list_sorted_descending [of storeAB] list_sorted_descending [of emptyStore]
    by (simp add: emptyStore_def)
qed

text \<open>
  The claim has the sort strict in every store. In the store that a Create, an Update of
  that Item with order \<open>2 ^ 53\<close> and a second Create leave, both Items hold order
  \<open>2 ^ 53\<close>, and List returns the two side by side.
\<close>

theorem list_not_strict_at_2_53:
  "map (\<lambda>t. (todo_id t, todo_order t)) (findSortDesc (run
     [Create (valueBody ''a''), Update (ObjectId 0) (orderOnly 9007199254740992) 0,
      Create (valueBody ''b'')] emptyStore))
   = [(0, 9007199254740992), (1, 9007199254740992)]"
  by code_simp

section \<open>C10: an Update with the Item's own order\<close>

text \<open>
  C10. For every existing Item \<open>a\<close> (in a store with unique identifiers), an Update of
  \<open>a\<close> whose \<open>order\<close> is the current order of \<open>a\<close> answers 200 and leaves the
  order of every Item, \<open>a\<close> included, as it was: the lookup by order finds a holder of
  that order, whose order is overwritten with the same value.
\<close>

theorem same_order_is_noop:
  assumes "uniqueIds s" and "findById s (ObjectId i) = Inr (Some a)"
    and "req_order b = Some (todo_order a)"
  shows "fst (patch_todos (ObjectId i) b now s) = Response 200 EmptyBody
       \<and> map todo_order (docs (snd (patch_todos (ObjectId i) b now s))) = map todo_order (docs s)"
proof -
  have a: "lookupById s i = Some a" using assms(2) by simp
  have u: "distinct (map todo_id (docs s))" using assms(1) by (rule uniqueIds_distinct)
  from a have am: "a \<in> set (docs s)" by (auto dest: lookupById_Some)
  have co: "changeOrder (req_order b) a s = (a, s)"
    using changeOrder_own_order [OF u am] assms(3) by simp
  have "\<And>t. t \<in> set (docs s) \<Longrightarrow> todo_id t = todo_id a \<Longrightarrow> todo_order t = todo_order a"
    using same_key_same_doc [OF u _ am] by blast
  then have "map todo_order (docs (snd (patch_todos (ObjectId i) b now s))) = map todo_order (docs s)"
    by (simp add: docs_patch [OF a] co)
  moreover have "fst (patch_todos (ObjectId i) b now s) = Response 200 EmptyBody"
    using a by (simp add: patch_todos_ObjectId split: prod.splits)
  ultimately show ?thesis by simp
qed

theorem same_order_is_noop_witness:
  "uniqueIds storeAB \<and> findById storeAB (ObjectId 0) = Inr (Some todoA)
   \<and> req_order (orderOnly 1) = Some (todo_order todoA)
   \<and> fst (patch_todos (ObjectId 0) (orderOnly 1) 5 storeAB) = Response 200 EmptyBody
   \<and> map todo_order (docs (snd (patch_todos (ObjectId 0) (orderOnly 1) 5 storeAB))) = [1, 2]"
proof -
  have h: "req_order (orderOnly 1) = Some (todo_order todoA)" by (simp add: orderOnly_def todoA_def)
  show ?thesis
    using h storeAB_facts(1,3) same_order_is_noop [OF storeAB_facts(1,3) h, of 5]
    by (simp add: storeAB_def todoA_def todoB_def)
qed

end
